theory Spec2Isabelle
  imports Main "HOL-Library.Word" "HOL-Library.Signed_Division" "HOL-Library.Multiset"
    "HOL-Library.Monad_Syntax"
begin

unbundle bit_operations_syntax

section \<open>Common types\<close>

text \<open>
  The three programs (\<^verbatim>\<open>ubvff1\<close>, \<^verbatim>\<open>ubvff2\<close>, \<^verbatim>\<open>vecass\<close>) are C programs; the
  source of ubvff2 follows that of vecass in \<^verbatim>\<open>vecass.c\<close>, from line 471 on. Names that
  ubvff1 and ubvff2 share carry a 1 or a 2 here.
  Fixed-width unsigned values are words; a C \<^verbatim>\<open>int\<close> or \<^verbatim>\<open>int32_t\<close> that is only
  compared, divided by a positive constant or printed is an \<^typ>\<open>int\<close> (no operation on it
  can leave the 32-bit range there). Behaviour that C leaves undefined (a write past the
  end of an array) is an explicit \<open>error\<close> result.
\<close>

type_synonym u8 = "8 word"
type_synonym u16 = "16 word"
type_synonym u32 = "32 word"

datatype error = ArrayOutOfBounds | BufferOverflow

section \<open>roundInt (ubvff1.c 91-98, ubvff2: vecass.c 734-741)\<close>

text \<open>
  \<^verbatim>\<open>int l = n / d; int r = n % d; if(r<(d/4)) return l; if(l>0) return l+1; return l-1;\<close>
  C division truncates towards zero and the remainder takes the sign of the dividend:
  these are \<open>sdiv\<close> and \<open>smod\<close> on \<^typ>\<open>int\<close>.
\<close>

definition roundInt :: "int \<Rightarrow> int \<Rightarrow> int" where
  "roundInt n d =
     (let l = n sdiv d; r = n smod d in
      if r < d sdiv 4 then l
      else if l > 0 then l + 1
      else l - 1)"


section \<open>Files\<close>

text \<open>
  A \<^verbatim>\<open>FILE *\<close> is the content of the file, the position of the stream and its
  end-of-file indicator. The streams are regular files: \<^verbatim>\<open>fseek\<close>, \<^verbatim>\<open>ftell\<close>,
  \<^verbatim>\<open>fflush\<close>, \<^verbatim>\<open>fwrite\<close> and \<^verbatim>\<open>fprintf\<close> do not fail on them, so the branches
  of the source that report such a failure are not reached. Input files hold bytes,
  the SVG files hold characters. What the programs print on standard output (the analysis
  listing, warnings) is not modelled.
\<close>

record 'a FILE =
  contents :: "'a list"
  position :: nat
  eof_flag :: bool

definition fopen_r :: "'a list \<Rightarrow> 'a FILE" where
  "fopen_r cs = \<lparr>contents = cs, position = 0, eof_flag = False\<rparr>"

text \<open>\<^verbatim>\<open>fread(ptr, 1, n, f)\<close>: all \<open>n\<close> elements, or a short read that sets the indicator.\<close>

definition fread :: "nat \<Rightarrow> 'a FILE \<Rightarrow> 'a list option \<times> 'a FILE" where
  "fread n f =
     (let avail = drop (position f) (contents f) in
      if n \<le> length avail then (Some (take n avail), f\<lparr>position := position f + n\<rparr>)
      else (None, f\<lparr>position := position f + length avail, eof_flag := True\<rparr>))"

definition fseek_set :: "nat \<Rightarrow> 'a FILE \<Rightarrow> 'a FILE" where
  "fseek_set off f = f\<lparr>position := off, eof_flag := False\<rparr>"

text \<open>\<^verbatim>\<open>fseek(f, -n, SEEK_END)\<close>; it fails, and leaves the stream alone, on a shorter file.\<close>

definition fseek_end_back :: "nat \<Rightarrow> 'a FILE \<Rightarrow> 'a FILE" where
  "fseek_end_back n f =
     (if n \<le> length (contents f) then f\<lparr>position := length (contents f) - n, eof_flag := False\<rparr>
      else f)"

text \<open>
  Writing at the position overwrites what is there and extends the file at its end,
  after a gap of zero bytes when the position is past the end.
\<close>

definition fwrite :: "char list \<Rightarrow> char FILE \<Rightarrow> char FILE" where
  "fwrite cs f =
     (let p = position f; old = contents f in
      f\<lparr>contents := take p (old @ replicate (p - length old) (CHR 0x00)) @ cs
                       @ drop (p + length cs) old,
        position := p + length cs\<rparr>)"

subsection \<open>bo\_fread: records in the byte order of the format\<close>

text \<open>
  \<^verbatim>\<open>bo_fread\<close> swaps the bytes of every record on a little-endian host and leaves them
  on a big-endian one, so a 16-bit record is the big-endian value of its two bytes on
  either host. The caller only tests whether all records were read.
\<close>

definition be16 :: "u8 \<Rightarrow> u8 \<Rightarrow> u16" where
  "be16 b0 b1 = push_bit 8 (ucast b0) OR ucast b1"

fun be16s :: "u8 list \<Rightarrow> u16 list" where
  "be16s (b0 # b1 # bs) = be16 b0 b1 # be16s bs"
| "be16s _ = []"

definition be32 :: "u8 \<Rightarrow> u8 \<Rightarrow> u8 \<Rightarrow> u8 \<Rightarrow> u32" where
  "be32 b0 b1 b2 b3 =
     push_bit 24 (ucast b0) OR push_bit 16 (ucast b1) OR push_bit 8 (ucast b2) OR ucast b3"

fun be32s :: "u8 list \<Rightarrow> u32 list" where
  "be32s (b0 # b1 # b2 # b3 # bs) = be32 b0 b1 b2 b3 # be32s bs"
| "be32s _ = []"

definition bo_fread2 :: "nat \<Rightarrow> u8 FILE \<Rightarrow> u16 list option \<times> u8 FILE" where
  "bo_fread2 cnt f = (case fread (2 * cnt) f of (r, f') \<Rightarrow> (map_option be16s r, f'))"

definition bo_fread4 :: "nat \<Rightarrow> u8 FILE \<Rightarrow> u32 list option \<times> u8 FILE" where
  "bo_fread4 cnt f = (case fread (4 * cnt) f of (r, f') \<Rightarrow> (map_option be32s r, f'))"

subsection \<open>printf conversions\<close>

text \<open>\<^verbatim>\<open>%u\<close>, \<^verbatim>\<open>%i\<close> and \<^verbatim>\<open>%05u\<close>.\<close>

fun dec_nat :: "nat \<Rightarrow> string" where
  "dec_nat n =
     (if n < 10 then [''0123456789'' ! n]
      else dec_nat (n div 10) @ [''0123456789'' ! (n mod 10)])"

declare dec_nat.simps [simp del]

definition dec_int :: "int \<Rightarrow> string" where
  "dec_int i = (if i < 0 then CHR ''-'' # dec_nat (nat (- i)) else dec_nat (nat i))"

definition dec_05u :: "nat \<Rightarrow> string" where
  "dec_05u n = replicate (5 - length (dec_nat n)) (CHR ''0'') @ dec_nat n"

section \<open>vecass: the Dump List (vecass.c 100-153)\<close>

record DUMPLIST =
  filenum :: u16
  layernum :: u16

definition MAX_DUMPLIST :: nat where
  "MAX_DUMPLIST = 100"

text \<open>
  The global variables of vecass. \<open>dumpList\<close> is the array of \<open>MAX_DUMPLIST\<close> entries,
  \<open>dumpListPos\<close> the number of entries in use.
\<close>

record globals =
  fout :: "char FILE"
  viewMinX :: int
  viewMinY :: int
  viewMaxX :: int
  viewMaxY :: int
  depth :: int
  dumpList :: "DUMPLIST list"
  dumpListPos :: nat

definition init_globals :: globals where
  "init_globals =
     \<lparr>fout = fopen_r [], viewMinX = 0, viewMinY = 0, viewMaxX = 1, viewMaxY = 1, depth = 0,
      dumpList = replicate MAX_DUMPLIST \<lparr>filenum = 0, layernum = 0\<rparr>, dumpListPos = 0\<rparr>"

text \<open>The entries in use, in order.\<close>

definition dl_entries :: "globals \<Rightarrow> DUMPLIST list" where
  "dl_entries g = take (dumpListPos g) (dumpList g)"

text \<open>
  \<^verbatim>\<open>addToDumpList\<close> stores at \<open>dumpListPos\<close> and counts up; it reports an overload when
  the array has become full, and returns 1 on every path. A call on the full array would
  store past its end.
\<close>

definition addToDumpList :: "u16 \<Rightarrow> u16 \<Rightarrow> globals \<Rightarrow> error + (int \<times> globals)" where
  "addToDumpList fnum lnum g =
     (if MAX_DUMPLIST \<le> dumpListPos g then Inl ArrayOutOfBounds
      else Inr (1, g\<lparr>dumpList := (dumpList g)[dumpListPos g := \<lparr>filenum = fnum, layernum = lnum\<rparr>],
                      dumpListPos := dumpListPos g + 1\<rparr>))"

text \<open>A sequence of include references added one after the other.\<close>

fun addAll :: "(u16 \<times> u16) list \<Rightarrow> globals \<Rightarrow> error + globals" where
  "addAll [] g = Inr g"
| "addAll ((fnum, lnum) # refs) g =
     (case addToDumpList fnum lnum g of
        Inl e \<Rightarrow> Inl e
      | Inr (_, g') \<Rightarrow> addAll refs g')"

text \<open>
  \<^verbatim>\<open>sortDumpList\<close>: a bubble sort of the index array \<open>dumpListRefs\<close>, comparing the
  layer numbers of the entries the indices refer to; the entries are then copied out in
  the order of the indices, and back, when anything was swapped.
\<close>

function bubbleInner :: "DUMPLIST list \<Rightarrow> nat \<Rightarrow> nat \<Rightarrow> nat list \<times> bool \<Rightarrow> nat list \<times> bool" where
  "bubbleInner dl reps i (refs, changed) =
     (if i < reps then
        (let a = uint (layernum (dl ! (refs ! i)));
             b = uint (layernum (dl ! (refs ! (i + 1))))
         in if a > b
            then bubbleInner dl reps (i + 1) (refs[i := refs ! (i + 1), i + 1 := refs ! i], True)
            else bubbleInner dl reps (i + 1) (refs, changed))
      else (refs, changed))"
  by pat_completeness auto
termination
  by (relation "measure (\<lambda>(dl, reps, i, rc). reps - i)") auto

declare bubbleInner.simps [simp del]

function bubbleOuter :: "DUMPLIST list \<Rightarrow> nat \<Rightarrow> nat list \<times> bool \<Rightarrow> nat list \<times> bool" where
  "bubbleOuter dl reps rc =
     (if reps > 0 then bubbleOuter dl (reps - 1) (bubbleInner dl reps 0 rc) else rc)"
  by pat_completeness auto
termination
  by (relation "measure (\<lambda>(dl, reps, rc). reps)") auto

declare bubbleOuter.simps [simp del]

definition sortDumpList :: "globals \<Rightarrow> globals" where
  "sortDumpList g =
     (if dumpListPos g < 2 then g
      else
        (let n = dumpListPos g;
             dl = dumpList g;
             (refs, changed) = bubbleOuter dl (n - 1) ([0..<n], False)
         in if changed
            then (let outList = map (\<lambda>i. dl ! (refs ! i)) [0..<n]
                  in g\<lparr>dumpList := outList @ drop n dl\<rparr>)
            else g))"

text \<open>
  Two invariants of the bubble sort, on the index array: every pair of positions whose
  upper one lies above \<open>reps\<close> is in order; the entry at position \<open>i\<close> is a largest one
  of the positions up to \<open>i\<close>.
\<close>

definition ordered_above :: "DUMPLIST list \<Rightarrow> nat list \<Rightarrow> nat \<Rightarrow> bool" where
  "ordered_above dl refs reps \<longleftrightarrow>
     (\<forall>j k. j < k \<and> k < length refs \<and> reps < k \<longrightarrow>
        layernum (dl ! (refs ! j)) \<le> layernum (dl ! (refs ! k)))"

definition max_at :: "DUMPLIST list \<Rightarrow> nat list \<Rightarrow> nat \<Rightarrow> bool" where
  "max_at dl refs i \<longleftrightarrow> (\<forall>j < i. layernum (dl ! (refs ! j)) \<le> layernum (dl ! (refs ! i)))"

definition dl_example :: globals where
  "dl_example =
     init_globals\<lparr>dumpList := [\<lparr>filenum = 7, layernum = 2\<rparr>, \<lparr>filenum = 8, layernum = 1\<rparr>,
                                \<lparr>filenum = 9, layernum = 2\<rparr>] @ replicate 97 \<lparr>filenum = 0, layernum = 0\<rparr>,
                   dumpListPos := 3\<rparr>"

section \<open>vecass: setViewbox (vecass.c 159-200)\<close>

text \<open>\<^verbatim>\<open>sprintf(buf, "\"%i %i %i %i\"", minx, miny, maxx, maxy)\<close>\<close>

definition viewbox_text :: "int \<Rightarrow> int \<Rightarrow> int \<Rightarrow> int \<Rightarrow> string" where
  "viewbox_text minx miny maxx maxy =
     CHR 0x22 # dec_int minx @ '' '' @ dec_int miny @ '' '' @ dec_int maxx @ '' '' @ dec_int maxy
       @ [CHR 0x22]"

text \<open>The text is padded on the right with spaces to 26 characters when it is shorter.\<close>

definition rpad26 :: "string \<Rightarrow> string" where
  "rpad26 buf = (if length buf < 26 then buf @ replicate (26 - length buf) (CHR '' '') else buf)"

text \<open>
  \<open>buf\<close> is \<^verbatim>\<open>char buf[30]\<close>: a text of 30 characters or more, with its terminator,
  does not fit and \<^verbatim>\<open>sprintf\<close> writes past the end of the array. Otherwise the first 26
  characters of the padded buffer are written at offset 13 and the stream is put back
  where it was.
\<close>

definition setViewbox :: "char FILE \<Rightarrow> int \<Rightarrow> int \<Rightarrow> int \<Rightarrow> int \<Rightarrow> error + (int \<times> char FILE)" where
  "setViewbox f minx miny maxx maxy =
     (let pos = position f;
          f1 = fseek_set 13 f;
          buf = viewbox_text minx miny maxx maxy
      in if 30 \<le> length buf then Inl BufferOverflow
         else (let f2 = fwrite (take 26 (rpad26 buf)) f1
               in Inr (0, fseek_set pos f2)))"

section \<open>ubvff2: the Type 2 emitter (vecass.c 584-784)\<close>

text \<open>
  The text that \<^verbatim>\<open>"%.6f"\<close> prints for \<^verbatim>\<open>(double)v/(double)scaleFactor\<close> is floating
  point formatting of the C library; it is a parameter \<open>ff\<close> of every function that
  prints a coordinate. \<open>ff_example\<close> stands in for it in concrete examples.
\<close>

definition ff_example :: "int \<Rightarrow> string" where
  "ff_example v = dec_int v"

definition dq :: char where
  "dq = CHR 0x22"

definition nl :: char where
  "nl = CHR 0x0A"

type_synonym BIN_POINT = "int \<times> int"

type_synonym BIN_CUBIC = "BIN_POINT \<times> BIN_POINT \<times> BIN_POINT"

record BIN_COLOR2 =
  col_cmd :: u16
  col_r :: u16
  col_g :: u16
  col_b :: u16
  col_z :: u16

datatype SVGDUMP_STATE2 =
  DUMPSTATE_BEGIN2
  | DUMPSTATE_AFTER_HEADER2
  | DUMPSTATE_AFTER_START_PATH2
  | DUMPSTATE_AFTER_LINE2
  | DUMPSTATE_AFTER_CLOSE_PATH2
  | DUMPSTATE_AFTER_END_PATH2
  | DUMPSTATE_AFTER_FOOTER2

text \<open>
  The global variables of ubvff2 and the variables of its \<^verbatim>\<open>main\<close> that the command
  loop reads and writes. \<open>hasStroke2\<close>, \<open>hasFill2\<close> and the two colours are not initialised
  by the source.
\<close>

record state2 =
  svgdump2 :: bool
  svgDumpState2 :: SVGDUMP_STATE2
  viewMinX2 :: int
  viewMinY2 :: int
  viewMaxX2 :: int
  viewMaxY2 :: int
  fout2 :: "char FILE"
  fin1 :: "u8 FILE"
  fin2 :: "u8 FILE"
  fillColor2 :: BIN_COLOR2
  strokeColor2 :: BIN_COLOR2
  strokeWidth2 :: u32
  strokeFlagA :: u16
  strokeFlagB :: u16
  hasStroke2 :: int
  hasFill2 :: int

definition scaleFactor2 :: int where
  "scaleFactor2 = 0x10000"

definition svg_header_text :: string where
  "svg_header_text =
     ''<svg viewBox='' @ [dq] @ ''VIEWBOX_PLACEHOLDER_1234'' @ [dq] @ '' version='' @ [dq]
       @ ''1.1'' @ [dq] @ '' baseProfile='' @ [dq] @ ''full'' @ [dq] @ '' xmlns='' @ [dq]
       @ ''http://www.w3.org/2000/svg'' @ [dq] @ ''>'' @ [nl]"

definition dumpSVGHeader2 :: "state2 \<Rightarrow> int \<times> state2" where
  "dumpSVGHeader2 st =
     (if \<not> svgdump2 st then (0, st)
      else if svgDumpState2 st \<noteq> DUMPSTATE_BEGIN2 then (1, st)
      else (0, st\<lparr>fout2 := fwrite svg_header_text (fout2 st),
                   svgDumpState2 := DUMPSTATE_AFTER_HEADER2\<rparr>))"

definition dumpSVGStartPath2 :: "(int \<Rightarrow> string) \<Rightarrow> state2 \<Rightarrow> BIN_POINT \<Rightarrow> int \<times> state2" where
  "dumpSVGStartPath2 ff st p =
     (if \<not> svgdump2 st then (0, st)
      else if svgDumpState2 st = DUMPSTATE_AFTER_CLOSE_PATH2
              \<or> svgDumpState2 st = DUMPSTATE_AFTER_LINE2
      then (0, st\<lparr>fout2 := fwrite (''M '' @ ff (fst p) @ '' '' @ ff (snd p) @ '' '') (fout2 st),
                   svgDumpState2 := DUMPSTATE_AFTER_START_PATH2\<rparr>)
      else if svgDumpState2 st \<noteq> DUMPSTATE_AFTER_HEADER2
              \<and> svgDumpState2 st \<noteq> DUMPSTATE_AFTER_END_PATH2
      then (1, st)
      else (0, st\<lparr>fout2 := fwrite (''<path d='' @ [dq] @ ''M '' @ ff (fst p) @ '' '' @ ff (snd p) @ '' '')
                              (fout2 st),
                   svgDumpState2 := DUMPSTATE_AFTER_START_PATH2\<rparr>))"

definition cubic_text :: "(int \<Rightarrow> string) \<Rightarrow> BIN_CUBIC \<Rightarrow> string" where
  "cubic_text ff c =
     (case c of (p0, p1, p2) \<Rightarrow>
        ''C '' @ ff (fst p0) @ '' '' @ ff (snd p0) @ '', '' @ ff (fst p1) @ '' '' @ ff (snd p1)
          @ '', '' @ ff (fst p2) @ '' '' @ ff (snd p2) @ '' '')"

definition dumpSVGCubic2 :: "(int \<Rightarrow> string) \<Rightarrow> state2 \<Rightarrow> BIN_CUBIC \<Rightarrow> int \<times> state2" where
  "dumpSVGCubic2 ff st c =
     (if \<not> svgdump2 st then (0, st)
      else if svgDumpState2 st \<noteq> DUMPSTATE_AFTER_START_PATH2
              \<and> svgDumpState2 st \<noteq> DUMPSTATE_AFTER_LINE2
      then (1, st)
      else (0, st\<lparr>fout2 := fwrite (cubic_text ff c) (fout2 st),
                   svgDumpState2 := DUMPSTATE_AFTER_LINE2\<rparr>))"

definition line_text :: "(int \<Rightarrow> string) \<Rightarrow> BIN_POINT \<Rightarrow> string" where
  "line_text ff p = ''L '' @ ff (fst p) @ '' '' @ ff (snd p) @ '' ''"

definition dumpSVGLine2 :: "(int \<Rightarrow> string) \<Rightarrow> state2 \<Rightarrow> BIN_POINT \<Rightarrow> int \<times> state2" where
  "dumpSVGLine2 ff st p =
     (if \<not> svgdump2 st then (0, st)
      else if svgDumpState2 st \<noteq> DUMPSTATE_AFTER_START_PATH2
              \<and> svgDumpState2 st \<noteq> DUMPSTATE_AFTER_LINE2
      then (1, st)
      else (0, st\<lparr>fout2 := fwrite (line_text ff p) (fout2 st),
                   svgDumpState2 := DUMPSTATE_AFTER_LINE2\<rparr>))"

definition dumpSVGClosePath2 :: "state2 \<Rightarrow> int \<times> state2" where
  "dumpSVGClosePath2 st =
     (if \<not> svgdump2 st then (0, st)
      else if svgDumpState2 st \<noteq> DUMPSTATE_AFTER_LINE2
              \<and> svgDumpState2 st \<noteq> DUMPSTATE_AFTER_START_PATH2
      then (1, st)
      else (0, st\<lparr>fout2 := fwrite ''Z '' (fout2 st),
                   svgDumpState2 := DUMPSTATE_AFTER_CLOSE_PATH2\<rparr>))"

definition rgb_text :: "nat \<Rightarrow> nat \<Rightarrow> nat \<Rightarrow> string" where
  "rgb_text r g b = ''rgb('' @ dec_nat r @ '','' @ dec_nat g @ '','' @ dec_nat b @ '')''"

definition fill_text :: "bool \<Rightarrow> nat \<Rightarrow> nat \<Rightarrow> nat \<Rightarrow> string" where
  "fill_text hasFill r g b =
     (if hasFill then ''fill='' @ [dq] @ rgb_text r g b @ [dq] @ '' ''
      else ''fill='' @ [dq] @ ''none'' @ [dq] @ '' '')"

definition stroke_text :: "(int \<Rightarrow> string) \<Rightarrow> bool \<Rightarrow> nat \<Rightarrow> nat \<Rightarrow> nat \<Rightarrow> int \<Rightarrow> string" where
  "stroke_text ff hasStroke r g b strokeWidth =
     (if hasStroke
      then ''stroke='' @ [dq] @ rgb_text r g b @ [dq] @ '' stroke-width='' @ [dq] @ ff strokeWidth
             @ [dq] @ '' stroke-linecap='' @ [dq] @ ''butt'' @ [dq] @ '' stroke-linejoin='' @ [dq]
             @ ''miter'' @ [dq] @ '' stroke-miterlimit='' @ [dq] @ ''10'' @ [dq] @ '' ''
      else ''stroke='' @ [dq] @ ''none'' @ [dq] @ '' '')"

text \<open>
  The stroke width is passed as \<^verbatim>\<open>int32_t\<close>, the colour channels are printed
  with \<^verbatim>\<open>%u\<close>.
\<close>

definition dumpSVGEndPath2 ::
  "(int \<Rightarrow> string) \<Rightarrow> state2 \<Rightarrow> int \<Rightarrow> BIN_COLOR2 \<Rightarrow> int \<Rightarrow> u32 \<Rightarrow> BIN_COLOR2 \<Rightarrow> int \<times> state2" where
  "dumpSVGEndPath2 ff st hasFill fillColor hasStroke strokeWidth strokeColor =
     (if \<not> svgdump2 st then (0, st)
      else if svgDumpState2 st \<noteq> DUMPSTATE_AFTER_LINE2
              \<and> svgDumpState2 st \<noteq> DUMPSTATE_AFTER_CLOSE_PATH2
      then (1, st)
      else (0, st\<lparr>fout2 :=
                     fwrite ([dq] @ '' ''
                             @ fill_text (hasFill \<noteq> 0) (unat (col_r fillColor))
                                 (unat (col_g fillColor)) (unat (col_b fillColor))
                             @ stroke_text ff (hasStroke \<noteq> 0) (unat (col_r strokeColor))
                                 (unat (col_g strokeColor)) (unat (col_b strokeColor))
                                 (sint strokeWidth)
                             @ ''/>'' @ [nl])
                       (fout2 st),
                   svgDumpState2 := DUMPSTATE_AFTER_END_PATH2\<rparr>))"

definition dumpSVGFooter2 :: "state2 \<Rightarrow> int \<times> state2" where
  "dumpSVGFooter2 st =
     (if \<not> svgdump2 st then (0, st)
      else if svgDumpState2 st \<noteq> DUMPSTATE_AFTER_END_PATH2 then (1, st)
      else (0, st\<lparr>fout2 := fwrite (''</svg>'' @ [nl]) (fout2 st),
                   svgDumpState2 := DUMPSTATE_AFTER_FOOTER2\<rparr>))"

text \<open>
  \<^verbatim>\<open>dumpSVGSetViewbox\<close>: as \<^verbatim>\<open>setViewbox\<close> of vecass, without the \<^verbatim>\<open>fflush\<close>, on the
  four bounds rounded by \<^verbatim>\<open>roundInt(v, scaleFactor)\<close>.
\<close>

definition dumpSVGSetViewbox2 ::
  "state2 \<Rightarrow> int \<Rightarrow> int \<Rightarrow> int \<Rightarrow> int \<Rightarrow> error + (int \<times> state2)" where
  "dumpSVGSetViewbox2 st minx miny maxx maxy =
     (if \<not> svgdump2 st then Inr (0, st)
      else
        (let pos = position (fout2 st);
             f1 = fseek_set 13 (fout2 st);
             buf = viewbox_text (roundInt minx scaleFactor2) (roundInt miny scaleFactor2)
                     (roundInt maxx scaleFactor2) (roundInt maxy scaleFactor2)
         in if 30 \<le> length buf then Inl BufferOverflow
            else (let f2 = fwrite (take 26 (rpad26 buf)) f1
                  in Inr (0, st\<lparr>fout2 := fseek_set pos f2\<rparr>))))"

section \<open>ubvff2: the split-stream decoder (vecass.c 786-1264)\<close>

text \<open>
  For records of four bytes, \<^verbatim>\<open>bo_fread\<close> of ubvff2 swaps the bytes inside each half on a
  little-endian host (\<^verbatim>\<open>reverseByteMixed\<close>) and swaps the halves on a big-endian one: on
  either host the value has the file's bytes 2 and 3 as its high half and bytes 0 and 1
  as its low half. Only points are read with this size, from the points file, and each
  value read widens the viewport: values at even positions are X values, the others Y.
\<close>

definition mixed32 :: "u8 \<Rightarrow> u8 \<Rightarrow> u8 \<Rightarrow> u8 \<Rightarrow> u32" where
  "mixed32 b0 b1 b2 b3 =
     push_bit 24 (ucast b2) OR push_bit 16 (ucast b3) OR push_bit 8 (ucast b0) OR ucast b1"

fun mixed32s :: "u8 list \<Rightarrow> u32 list" where
  "mixed32s (b0 # b1 # b2 # b3 # bs) = mixed32 b0 b1 b2 b3 # mixed32s bs"
| "mixed32s _ = []"

fun accView :: "nat \<Rightarrow> int list \<Rightarrow> state2 \<Rightarrow> state2" where
  "accView i [] st = st"
| "accView i (v # vs) st =
     accView (i + 1) vs
       (if i mod 2 = 0
        then (if v > viewMaxX2 st then st\<lparr>viewMaxX2 := v\<rparr>
              else if v < viewMinX2 st then st\<lparr>viewMinX2 := v\<rparr> else st)
        else (if v > viewMaxY2 st then st\<lparr>viewMaxY2 := v\<rparr>
              else if v < viewMinY2 st then st\<lparr>viewMinY2 := v\<rparr> else st))"

definition bo_fread4_points :: "nat \<Rightarrow> state2 \<Rightarrow> int list option \<times> state2" where
  "bo_fread4_points cnt st =
     (case fread (4 * cnt) (fin2 st) of
        (None, f) \<Rightarrow> (None, st\<lparr>fin2 := f\<rparr>)
      | (Some bs, f) \<Rightarrow>
          (let vs = map sint (mixed32s bs) in (Some vs, accView 0 vs (st\<lparr>fin2 := f\<rparr>))))"

fun points_of :: "int list \<Rightarrow> BIN_POINT list" where
  "points_of (px # py # vs) = (px, py) # points_of vs"
| "points_of _ = []"

fun cubics_of :: "BIN_POINT list \<Rightarrow> BIN_CUBIC list" where
  "cubics_of (p0 # p1 # p2 # ps) = (p0, p1, p2) # cubics_of ps"
| "cubics_of _ = []"

datatype loop_ctl = Continue | Break

text \<open>
  \<^verbatim>\<open>for(i...) { if(dumpSVGLine(fout, &points[i])) break; }\<close> and the same loop over the
  cubics: the \<^verbatim>\<open>break\<close> leaves this inner loop only.
\<close>

fun dumpLines2 :: "(int \<Rightarrow> string) \<Rightarrow> state2 \<Rightarrow> BIN_POINT list \<Rightarrow> state2" where
  "dumpLines2 ff st [] = st"
| "dumpLines2 ff st (p # ps) =
     (case dumpSVGLine2 ff st p of (r, st') \<Rightarrow> if r \<noteq> 0 then st' else dumpLines2 ff st' ps)"

fun dumpCubics2 :: "(int \<Rightarrow> string) \<Rightarrow> state2 \<Rightarrow> BIN_CUBIC list \<Rightarrow> state2" where
  "dumpCubics2 ff st [] = st"
| "dumpCubics2 ff st (c # cs) =
     (case dumpSVGCubic2 ff st c of (r, st') \<Rightarrow> if r \<noteq> 0 then st' else dumpCubics2 ff st' cs)"

definition color_of :: "u16 list \<Rightarrow> BIN_COLOR2" where
  "color_of cmdw =
     \<lparr>col_cmd = cmdw ! 0, col_r = cmdw ! 1, col_g = cmdw ! 2, col_b = cmdw ! 3, col_z = cmdw ! 4\<rparr>"

text \<open>
  The body of the command loop for one command of five words, other than END\_FILE.
  \<open>Break\<close> is a \<^verbatim>\<open>break\<close> out of the command loop. Memory allocation does not fail.
\<close>

definition POINTS_CUBICS2 :: "(int \<Rightarrow> string) \<Rightarrow> u16 list \<Rightarrow> state2 \<Rightarrow> loop_ctl \<times> state2" where
  "POINTS_CUBICS2 ff cmdw st =
     (let pTotal = unat (cmdw ! 1) in
      if pTotal mod 3 \<noteq> 0 \<or> pTotal = 0 then (Break, st)
      else
        (case bo_fread4_points (pTotal * 2) st of
           (None, st') \<Rightarrow> (Break, st')
         | (Some vs, st') \<Rightarrow>
             (Continue, dumpCubics2 ff st' (take (pTotal div 3) (cubics_of (points_of vs))))))"

definition POINTS_LINES2 :: "(int \<Rightarrow> string) \<Rightarrow> u16 list \<Rightarrow> state2 \<Rightarrow> loop_ctl \<times> state2" where
  "POINTS_LINES2 ff cmdw st =
     (let pTotal = unat (cmdw ! 1) in
      if pTotal = 0 then (Break, st)
      else
        (case bo_fread4_points (pTotal * 2) st of
           (None, st') \<Rightarrow> (Break, st')
         | (Some vs, st') \<Rightarrow> (Continue, dumpLines2 ff st' (take pTotal (points_of vs)))))"

definition MOVE_TO2 :: "(int \<Rightarrow> string) \<Rightarrow> u16 list \<Rightarrow> state2 \<Rightarrow> loop_ctl \<times> state2" where
  "MOVE_TO2 ff cmdw st =
     (if cmdw ! 1 \<noteq> 1 then (Break, st)
      else
        (case bo_fread4_points 2 st of
           (None, st') \<Rightarrow> (Break, st')
         | (Some vs, st') \<Rightarrow>
             (case dumpSVGStartPath2 ff st' (vs ! 0, vs ! 1) of
                (r, st'') \<Rightarrow> if r \<noteq> 0 then (Break, st'') else (Continue, st''))))"

definition END_PATH2 :: "(int \<Rightarrow> string) \<Rightarrow> u16 list \<Rightarrow> state2 \<Rightarrow> loop_ctl \<times> state2" where
  "END_PATH2 ff cmdw st =
     (if cmdw ! 1 = 0x01
      then (Continue, (snd (dumpSVGClosePath2 st))\<lparr>hasStroke2 := 0, hasFill2 := 1\<rparr>)
      else if cmdw ! 1 = 0x00 then (Continue, st\<lparr>hasStroke2 := 1\<rparr>)
      else if cmdw ! 1 = 0x02
      then (Continue, snd (dumpSVGEndPath2 ff st (hasFill2 st) (fillColor2 st) (hasStroke2 st)
                             (strokeWidth2 st) (strokeColor2 st)))
      else if cmdw ! 1 = 0x03 then (Continue, st\<lparr>hasFill2 := 0\<rparr>)
      else if cmdw ! 1 = 0x04 then (Continue, st)
      else if cmdw ! 1 = 0x05 then (Continue, st)
      else (Break, st))"

text \<open>
  \<^verbatim>\<open>strokeWidth = (cmdw.words[2] << 16) & cmdw.words[1];\<close> The two 16-bit words are
  promoted to 32 bits before the shift and the conjunction.
\<close>

definition STROKE_WIDTH2 :: "u16 list \<Rightarrow> state2 \<Rightarrow> loop_ctl \<times> state2" where
  "STROKE_WIDTH2 cmdw st =
     (Continue, st\<lparr>strokeWidth2 := push_bit 16 (ucast (cmdw ! 2) :: u32) AND ucast (cmdw ! 1)\<rparr>)"

definition process_cmd2 :: "(int \<Rightarrow> string) \<Rightarrow> u16 list \<Rightarrow> state2 \<Rightarrow> loop_ctl \<times> state2" where
  "process_cmd2 ff cmdw st =
     (let cmd = cmdw ! 0 in
      if cmd = 0x02 then MOVE_TO2 ff cmdw st
      else if cmd = 0x03 then POINTS_LINES2 ff cmdw st
      else if cmd = 0x04 then POINTS_CUBICS2 ff cmdw st
      else if cmd = 0x05 then (Continue, st\<lparr>strokeColor2 := color_of cmdw\<rparr>)
      else if cmd = 0x06 then (Continue, st\<lparr>fillColor2 := color_of cmdw\<rparr>)
      else if cmd = 0x07 then END_PATH2 ff cmdw st
      else if cmd = 0x08 then (Continue, st\<lparr>strokeFlagA := cmdw ! 1\<rparr>)
      else if cmd = 0x09 then (Continue, st\<lparr>strokeFlagB := cmdw ! 1\<rparr>)
      else if cmd = 0x0A then STROKE_WIDTH2 cmdw st
      else (Continue, st))"

text \<open>
  \<^verbatim>\<open>for(cmdCounter = 1; cmdCounter < header.params.cmdCount; cmdCounter++)\<close>: the loop
  counter is the argument \<open>c\<close>; the result carries its value when the loop is left.
  END\_FILE (opcode 1) writes the footer, patches the viewport, counts once more and
  leaves the loop.
\<close>

function loop2 :: "(int \<Rightarrow> string) \<Rightarrow> nat \<Rightarrow> nat \<Rightarrow> state2 \<Rightarrow> error + (nat \<times> state2)" where
  "loop2 ff cmdCount c st =
     (if c < cmdCount then
        (case bo_fread2 5 (fin1 st) of
           (None, f) \<Rightarrow> Inr (c, st\<lparr>fin1 := f\<rparr>)
         | (Some cmdw, f) \<Rightarrow>
             (let st1 = st\<lparr>fin1 := f\<rparr> in
              if cmdw ! 0 = 0x01 then
                (let st2 = snd (dumpSVGFooter2 st1) in
                 case dumpSVGSetViewbox2 st2 (viewMinX2 st2) (viewMinY2 st2) (viewMaxX2 st2)
                        (viewMaxY2 st2) of
                   Inl e \<Rightarrow> Inl e
                 | Inr (r, st3) \<Rightarrow> Inr (c + 1, st3))
              else
                (case process_cmd2 ff cmdw st1 of
                   (Break, st2) \<Rightarrow> Inr (c, st2)
                 | (Continue, st2) \<Rightarrow> loop2 ff cmdCount (c + 1) st2)))
      else Inr (c, st))"
  by pat_completeness auto
termination
  by (relation "measure (\<lambda>(ff, cmdCount, c, st). cmdCount - c)") auto

declare loop2.simps [simp del]

text \<open>
  \<^verbatim>\<open>main\<close> of ubvff2 after its arguments are parsed. \<open>dump\<close> is \<^verbatim>\<open>-svgdump\<close>, \<open>cmdFile\<close>
  the bytes of the command file, \<open>pointsFile n\<close> what opening the points file gives
  (its name may be derived from the footer's \<open>pfilenum\<close> \<open>n\<close>), \<open>uninit\<close> a state that gives
  the variables the source leaves uninitialised their values. The result is the exit
  status and the decoder state where the decoding was started. The output file can be
  created.
\<close>

definition main2 ::
  "(int \<Rightarrow> string) \<Rightarrow> bool \<Rightarrow> u8 list \<Rightarrow> (u16 \<Rightarrow> u8 list option) \<Rightarrow> state2
     \<Rightarrow> error + (int \<times> state2 option)" where
  "main2 ff dump cmdFile pointsFile uninit =
     (case bo_fread2 7 (fopen_r cmdFile) of
        (None, f) \<Rightarrow> Inr (1, None)
      | (Some header, f) \<Rightarrow>
          if header ! 1 \<le> 0x0A then Inr (1, None)
          else
            (case bo_fread2 5 (fseek_end_back 10 f) of
               (None, f') \<Rightarrow> Inr (1, None)
             | (Some footer, f') \<Rightarrow>
                 if footer ! 0 \<noteq> 0x01 \<or> footer ! 2 \<noteq> 0 \<or> footer ! 3 \<noteq> 0 \<or> footer ! 4 \<noteq> 0
                 then Inr (1, None)
                 else
                   (case pointsFile (footer ! 1) of
                      None \<Rightarrow> Inr (1, None)
                    | Some pts \<Rightarrow>
                        (case bo_fread2 2 (fopen_r pts) of
                           (None, p) \<Rightarrow> Inr (1, None)
                         | (Some pFileHeader, p) \<Rightarrow>
                             (let st0 = uninit\<lparr>svgdump2 := dump,
                                     svgDumpState2 := DUMPSTATE_BEGIN2,
                                     viewMinX2 := 0, viewMinY2 := 0,
                                     viewMaxX2 := 0x10000, viewMaxY2 := 0x10000,
                                     fout2 := fopen_r [], fin1 := f', fin2 := fseek_set 4 p,
                                     strokeWidth2 := 0x10000, strokeFlagA := 0, strokeFlagB := 0\<rparr>;
                                  st1 = snd (dumpSVGHeader2 st0);
                                  st2 = st1\<lparr>fin1 := fseek_set 14 (fin1 st1)\<rparr>;
                                  cmdCount = unat (header ! 1)
                              in case loop2 ff cmdCount 1 st2 of
                                   Inl e \<Rightarrow> Inl e
                                 | Inr (c, st3) \<Rightarrow>
                                     (let error1 = (if dump \<and> svgDumpState2 st3 \<noteq> DUMPSTATE_AFTER_FOOTER2
                                                    then 1 else 0);
                                          error2 = (if c \<noteq> cmdCount then 1 else error1)
                                      in Inr (error2, Some st3)))))))"

section \<open>ubvff1: the Type 1 emitter and the cubic command (ubvff1.c 104-230, 606-635)\<close>

datatype SVGDUMP_STATE1 =
  DUMPSTATE_BEGIN1
  | DUMPSTATE_AFTER_HEADER1
  | DUMPSTATE_AFTER_START_LAYER1
  | DUMPSTATE_AFTER_START_PATH1
  | DUMPSTATE_AFTER_LINE1
  | DUMPSTATE_AFTER_CLOSE_PATH1
  | DUMPSTATE_AFTER_END_PATH1
  | DUMPSTATE_AFTER_END_LAYER1
  | DUMPSTATE_AFTER_FOOTER1

text \<open>The emitter's global variables, the output file and the input file \<^verbatim>\<open>f\<close>.\<close>

record state1 =
  svgdump1 :: bool
  svgDumpState1 :: SVGDUMP_STATE1
  fout1 :: "char FILE"
  fin :: "u8 FILE"

definition dumpSVGStartPath1 :: "(int \<Rightarrow> string) \<Rightarrow> state1 \<Rightarrow> BIN_POINT \<Rightarrow> int \<times> state1" where
  "dumpSVGStartPath1 ff st p =
     (if \<not> svgdump1 st then (0, st)
      else if svgDumpState1 st = DUMPSTATE_AFTER_CLOSE_PATH1
              \<or> svgDumpState1 st = DUMPSTATE_AFTER_LINE1
      then (0, st\<lparr>fout1 := fwrite (''M '' @ ff (fst p) @ '' '' @ ff (snd p) @ '' '') (fout1 st),
                   svgDumpState1 := DUMPSTATE_AFTER_START_PATH1\<rparr>)
      else if svgDumpState1 st \<noteq> DUMPSTATE_AFTER_START_LAYER1
              \<and> svgDumpState1 st \<noteq> DUMPSTATE_AFTER_END_PATH1
      then (1, st)
      else (0, st\<lparr>fout1 := fwrite (''<path d='' @ [dq] @ ''M '' @ ff (fst p) @ '' '' @ ff (snd p) @ '' '')
                              (fout1 st),
                   svgDumpState1 := DUMPSTATE_AFTER_START_PATH1\<rparr>))"

definition dumpSVGCubic1 :: "(int \<Rightarrow> string) \<Rightarrow> state1 \<Rightarrow> BIN_CUBIC \<Rightarrow> int \<times> state1" where
  "dumpSVGCubic1 ff st c =
     (if \<not> svgdump1 st then (0, st)
      else if svgDumpState1 st \<noteq> DUMPSTATE_AFTER_START_PATH1
              \<and> svgDumpState1 st \<noteq> DUMPSTATE_AFTER_LINE1
      then (1, st)
      else (0, st\<lparr>fout1 := fwrite (cubic_text ff c) (fout1 st),
                   svgDumpState1 := DUMPSTATE_AFTER_LINE1\<rparr>))"

definition dumpSVGLine1 :: "(int \<Rightarrow> string) \<Rightarrow> state1 \<Rightarrow> BIN_POINT \<Rightarrow> int \<times> state1" where
  "dumpSVGLine1 ff st p =
     (if \<not> svgdump1 st then (0, st)
      else if svgDumpState1 st \<noteq> DUMPSTATE_AFTER_START_PATH1
              \<and> svgDumpState1 st \<noteq> DUMPSTATE_AFTER_LINE1
      then (1, st)
      else (0, st\<lparr>fout1 := fwrite (line_text ff p) (fout1 st),
                   svgDumpState1 := DUMPSTATE_AFTER_LINE1\<rparr>))"

definition dumpSVGClosePath1 :: "state1 \<Rightarrow> int \<times> state1" where
  "dumpSVGClosePath1 st =
     (if \<not> svgdump1 st then (0, st)
      else if svgDumpState1 st \<noteq> DUMPSTATE_AFTER_LINE1 then (1, st)
      else (0, st\<lparr>fout1 := fwrite ''Z '' (fout1 st),
                   svgDumpState1 := DUMPSTATE_AFTER_CLOSE_PATH1\<rparr>))"

text \<open>
  CMD\_08\_CUBIC: a point count, then \<^verbatim>\<open>for(int y=0; y<(pcount/3); y++)\<close> reading six
  values and emitting one cubic per round. A failed read or a failed emit leaves this
  inner loop only; the command loop goes on (\<open>Continue\<close>). The command loop is left
  (\<open>Break\<close>) when the point count cannot be read.
\<close>

fun cubicLoop1 :: "(int \<Rightarrow> string) \<Rightarrow> nat \<Rightarrow> state1 \<Rightarrow> state1" where
  "cubicLoop1 ff 0 st = st"
| "cubicLoop1 ff (Suc n) st =
     (case bo_fread4 6 (fin st) of
        (None, f) \<Rightarrow> st\<lparr>fin := f\<rparr>
      | (Some vs, f) \<Rightarrow>
          (case dumpSVGCubic1 ff (st\<lparr>fin := f\<rparr>)
                  ((sint (vs ! 0), sint (vs ! 1)), (sint (vs ! 2), sint (vs ! 3)),
                   (sint (vs ! 4), sint (vs ! 5))) of
             (r, st') \<Rightarrow> if r \<noteq> 0 then st' else cubicLoop1 ff n st'))"

definition CMD_08_CUBIC :: "(int \<Rightarrow> string) \<Rightarrow> state1 \<Rightarrow> loop_ctl \<times> state1" where
  "CMD_08_CUBIC ff st =
     (case bo_fread4 1 (fin st) of
        (None, f) \<Rightarrow> (Break, st\<lparr>fin := f\<rparr>)
      | (Some pc, f) \<Rightarrow> (Continue, cubicLoop1 ff (unat (pc ! 0) div 3) (st\<lparr>fin := f\<rparr>)))"

section \<open>vecass: dumpFromList and processFile (vecass.c 206-407)\<close>

text \<open>
  What the assembler finds outside itself: the command files and the SVG fragments that
  \<^verbatim>\<open>fopen\<close> finds under a name (\<open>None\<close>: the file cannot be opened), the prefix derived
  from the command line, and the C library's \<^verbatim>\<open>sscanf(s, "%i %i %i %i", ...)\<close>, which gives
  four numbers when it converts all four.
\<close>

record env =
  bin_files :: "string \<Rightarrow> u8 list option"
  svg_files :: "string \<Rightarrow> char list option"
  prefix :: string
  sscanf_viewbox :: "string \<Rightarrow> (int \<times> int \<times> int \<times> int) option"

definition BLOCKSIZE :: nat where
  "BLOCKSIZE = 4096"

definition NUL :: char where
  "NUL = CHR 0x00"

definition cstring :: "string \<Rightarrow> string" where
  "cstring cs = takeWhile (\<lambda>c. c \<noteq> NUL) cs"

text \<open>
  \<^verbatim>\<open>strchr(headerbuf, '\n')\<close> on the array of 150 characters: the offset of the first
  newline, or no result at a terminator; a buffer with neither is read past its end.
\<close>

fun strchr_nl :: "string \<Rightarrow> error + nat option" where
  "strchr_nl [] = Inl BufferOverflow"
| "strchr_nl (c # cs) =
     (if c = nl then Inr (Some 0)
      else if c = NUL then Inr None
      else (case strchr_nl cs of
              Inl e \<Rightarrow> Inl e
            | Inr None \<Rightarrow> Inr None
            | Inr (Some i) \<Rightarrow> Inr (Some (Suc i))))"

text \<open>The block copy; \<open>False\<close> when a block cannot be read in full.\<close>

function copyBlocks :: "nat \<Rightarrow> char FILE \<Rightarrow> char FILE \<Rightarrow> bool \<times> char FILE" where
  "copyBlocks bytesLeft fi fo =
     (if bytesLeft > 0 then
        (let cnt = (if bytesLeft < BLOCKSIZE then bytesLeft else BLOCKSIZE) in
         case fread cnt fi of
           (None, fi') \<Rightarrow> (False, fo)
         | (Some buf, fi') \<Rightarrow> copyBlocks (bytesLeft - cnt) fi' (fwrite buf fo))
      else (True, fo))"
  by pat_completeness auto
termination
  by (relation "measure (\<lambda>(bytesLeft, fi, fo). bytesLeft)") (auto simp: BLOCKSIZE_def)

declare copyBlocks.simps [simp del]

definition widen :: "int \<times> int \<times> int \<times> int \<Rightarrow> globals \<Rightarrow> globals" where
  "widen vb g =
     (case vb of (x1, y1, x2, y2) \<Rightarrow>
        (let g1 = (if x1 < viewMinX g then g\<lparr>viewMinX := x1\<rparr> else g);
             g2 = (if y1 < viewMinY g1 then g1\<lparr>viewMinY := y1\<rparr> else g1);
             g3 = (if x2 > viewMaxX g2 then g2\<lparr>viewMaxX := x2\<rparr> else g2)
         in if y2 > viewMaxY g3 then g3\<lparr>viewMaxY := y2\<rparr> else g3))"

text \<open>
  One round of the loop of \<^verbatim>\<open>dumpFromList\<close>, for the entry \<open>e\<close>. \<open>Break\<close> is
  \<^verbatim>\<open>return 1\<close>. \<open>byteCount\<close> is a \<^verbatim>\<open>uint32_t\<close>.
\<close>

definition dumpEntry :: "env \<Rightarrow> DUMPLIST \<Rightarrow> globals \<Rightarrow> error + (loop_ctl \<times> globals)" where
  "dumpEntry env e g =
     (case svg_files env (prefix env @ dec_05u (unat (filenum e)) @ ''.svg'') of
        None \<Rightarrow> Inr (Continue, g)
      | Some cs \<Rightarrow>
          (let byteCount0 = (of_nat (length cs) :: u32) - 7;
               headerbuf = take 150 cs @ replicate (150 - length cs) NUL
           in case sscanf_viewbox env (cstring (drop 14 headerbuf)) of
                None \<Rightarrow> Inr (Break, g)
              | Some vb \<Rightarrow>
                  (let g1 = widen vb g in
                   case strchr_nl headerbuf of
                     Inl err \<Rightarrow> Inl err
                   | Inr None \<Rightarrow> Inr (Break, g1)
                   | Inr (Some i) \<Rightarrow>
                       (let offset = i + 1;
                            byteCount = byteCount0 - of_nat offset;
                            fi = fseek_set offset (fopen_r cs);
                            fo = fwrite (''<g>'' @ [nl]) (fout g1)
                        in case copyBlocks (unat byteCount) fi fo of
                             (False, fo') \<Rightarrow> Inr (Break, g1\<lparr>fout := fo'\<rparr>)
                           | (True, fo') \<Rightarrow>
                               Inr (Continue, g1\<lparr>fout := fwrite (''</g>'' @ [nl]) fo'\<rparr>)))))"

fun dumpEntries :: "env \<Rightarrow> DUMPLIST list \<Rightarrow> globals \<Rightarrow> error + (loop_ctl \<times> globals)" where
  "dumpEntries env [] g = Inr (Continue, g)"
| "dumpEntries env (e # es) g =
     (case dumpEntry env e g of
        Inl err \<Rightarrow> Inl err
      | Inr (Break, g') \<Rightarrow> Inr (Break, g')
      | Inr (Continue, g') \<Rightarrow> dumpEntries env es g')"

definition dumpFromList :: "env \<Rightarrow> globals \<Rightarrow> error + (int \<times> globals)" where
  "dumpFromList env g =
     (let g1 = sortDumpList g in
      case dumpEntries env (dl_entries g1) g1 of
        Inl err \<Rightarrow> Inl err
      | Inr (Break, g2) \<Rightarrow> Inr (1, g2)
      | Inr (Continue, g2) \<Rightarrow>
          (case setViewbox (fout g2) (viewMinX g2) (viewMinY g2) (viewMaxX g2) (viewMaxY g2) of
             Inl err \<Rightarrow> Inl err
           | Inr (r, f) \<Rightarrow> if r \<noteq> 0 then Inr (1, g2\<lparr>fout := f\<rparr>) else Inr (0, g2\<lparr>fout := f\<rparr>)))"

text \<open>What \<^verbatim>\<open>processFile\<close> does once its command loop is left.\<close>

definition after_loop :: "env \<Rightarrow> globals \<Rightarrow> error + (int \<times> globals)" where
  "after_loop env g =
     (if depth g = 0 then
        (case dumpFromList env g of
           Inl err \<Rightarrow> Inl err
         | Inr (r, g') \<Rightarrow>
             if r \<noteq> 0 then Inr (1, g')
             else Inr (0, g'\<lparr>fout := fwrite (''</svg>'' @ [nl]) (fout g')\<rparr>))
      else Inr (0, g))"

text \<open>
  \<^verbatim>\<open>processFile\<close> and its command loop call each other; the two are one function here,
  told apart by its second argument: \<open>ProcessFile name\<close> is the call
  \<^verbatim>\<open>processFile(name)\<close>, \<open>Scan f\<close> is the \<^verbatim>\<open>while(!feof(fin1))\<close> loop on the stream \<open>f\<close>
  with what follows it. The result is \<open>None\<close> when the recursion does not return.
\<close>

datatype pf_call = ProcessFile string | Scan "u8 FILE"

partial_function (option) processFile_scan ::
  "env \<Rightarrow> pf_call \<Rightarrow> globals \<Rightarrow> (error + (int \<times> globals)) option" where
  "processFile_scan env call g =
     (case call of
        ProcessFile baseFilename \<Rightarrow>
          if depth g = 10 then Some (Inr (0, g))
          else
            (case bin_files env baseFilename of
               None \<Rightarrow> Some (Inr (1, g))
             | Some bytes \<Rightarrow>
                 (case bo_fread4 3 (fopen_r bytes) of
                    (None, f) \<Rightarrow> Some (Inr (1, g))
                  | (Some header, f) \<Rightarrow>
                      if sint (header ! 0) = 1 then
                        (if sint (header ! 1) \<noteq> 0 then Some (Inr (1, g))
                         else if depth g = 0 then Some (Inr (0, g))
                         else
                           (case addToDumpList (ucast (drop_bit 16 (header ! 2)))
                                   (ucast (header ! 2)) g of
                              Inl err \<Rightarrow> Some (Inl err)
                            | Inr (r, g') \<Rightarrow> Some (Inr (0, g'))))
                      else if sint (header ! 0) < 3 \<or> sint (header ! 0) \<ge> int MAX_DUMPLIST
                      then Some (Inr (1, g))
                      else if sint (header ! 0) = 3 \<and> depth g = 0 then Some (Inr (1, g))
                      else if sint (header ! 1) = 0x48 then Some (Inr (1, g))
                      else if sint (header ! 1) \<noteq> 0 \<or> sint (header ! 2) \<noteq> 0
                      then Some (Inr (1, g))
                      else
                        (case bo_fread4 3 f of
                           (None, f') \<Rightarrow> Some (Inr (1, g))
                         | (Some header2, f') \<Rightarrow>
                             processFile_scan env (Scan f')
                               (if depth g = 0
                                then g\<lparr>fout := fwrite svg_header_text (fopen_r [])\<rparr>
                                else g))))
      | Scan f \<Rightarrow>
          if eof_flag f then Some (after_loop env g)
          else
            (case bo_fread2 1 f of
               (None, f1) \<Rightarrow> Some (after_loop env g)
             | (Some cmd, f1) \<Rightarrow>
                 if cmd ! 0 = 0 then processFile_scan env (Scan f1) g
                 else if cmd ! 0 = 3 \<or> cmd ! 0 = 4 then
                   (case bo_fread2 1 f1 of
                      (None, f2) \<Rightarrow> Some (after_loop env g)
                    | (Some incnum, f2) \<Rightarrow>
                        Option.bind
                          (processFile_scan env
                             (ProcessFile (prefix env @ dec_05u (unat (incnum ! 0)) @ ''.bin''))
                             (g\<lparr>depth := depth g + 1\<rparr>))
                          (\<lambda>res. case res of
                                    Inl err \<Rightarrow> Some (Inl err)
                                  | Inr (r, g') \<Rightarrow>
                                      if r \<noteq> 0 then Some (after_loop env g')
                                      else processFile_scan env (Scan f2) (g'\<lparr>depth := depth g' - 1\<rparr>)))
                 else processFile_scan env (Scan f1) g))"

definition processFile :: "env \<Rightarrow> string \<Rightarrow> globals \<Rightarrow> (error + (int \<times> globals)) option" where
  "processFile env baseFilename g = processFile_scan env (ProcessFile baseFilename) g"

section \<open>vecass: invariants of the recursion\<close>

text \<open>
  The bounds contain the unit square; the bounds of \<open>g'\<close> contain those of \<open>g\<close>; what a
  call of \<open>processFile_scan\<close> leaves behind, relative to the state \<open>g\<close> it started in
  (the depth has not gone down and is at most 10, the bounds have only been widened);
  the depth a call may start at; and the order in which the calls decrease: the distance
  of the depth from 10, then \<^verbatim>\<open>processFile\<close> before its loop, then the bytes left in the
  stream of the loop.
\<close>

definition bounds_ok :: "globals \<Rightarrow> bool" where
  "bounds_ok g \<longleftrightarrow> viewMinX g \<le> 0 \<and> viewMinY g \<le> 0 \<and> 1 \<le> viewMaxX g \<and> 1 \<le> viewMaxY g"

definition view_widened :: "globals \<Rightarrow> globals \<Rightarrow> bool" where
  "view_widened g g' \<longleftrightarrow>
     viewMinX g' \<le> viewMinX g \<and> viewMinY g' \<le> viewMinY g
     \<and> viewMaxX g \<le> viewMaxX g' \<and> viewMaxY g \<le> viewMaxY g'"

definition pf_post :: "globals \<Rightarrow> error + (int \<times> globals) \<Rightarrow> bool" where
  "pf_post g res \<longleftrightarrow>
     (case res of
        Inl e \<Rightarrow> True
      | Inr (r, g') \<Rightarrow> depth g \<le> depth g' \<and> depth g' \<le> 10 \<and> view_widened g g')"

definition pf_pre :: "pf_call \<Rightarrow> globals \<Rightarrow> bool" where
  "pf_pre call g \<longleftrightarrow> (case call of ProcessFile n \<Rightarrow> depth g \<le> 10 | Scan f \<Rightarrow> depth g \<le> 9)"

definition remaining :: "'a FILE \<Rightarrow> nat" where
  "remaining f = length (contents f) - position f"

definition pf_meas :: "pf_call \<times> globals \<Rightarrow> nat \<times> nat \<times> nat" where
  "pf_meas cg =
     (nat (10 - depth (snd cg)),
      (case fst cg of ProcessFile n \<Rightarrow> 1 | Scan f \<Rightarrow> 0),
      (case fst cg of ProcessFile n \<Rightarrow> 0 | Scan f \<Rightarrow> remaining f))"

definition pf_rel :: "((pf_call \<times> globals) \<times> (pf_call \<times> globals)) set" where
  "pf_rel = inv_image (less_than <*lex*> less_than <*lex*> less_than) pf_meas"

section \<open>Example inputs\<close>

definition cyclic_file :: "u8 list" where
  "cyclic_file =
     [0, 0, 0, 5,  0, 0, 0, 0,  0, 0, 0, 0,  0, 0, 0, 1,  0, 0, 0, 0,  0, 0, 0, 0,  0, 3, 0, 1]"

definition cyclic_bin :: "string \<Rightarrow> u8 list option" where
  "cyclic_bin n = (if n = ''00001.bin'' then Some cyclic_file else None)"

definition frag_example :: string where
  "frag_example =
     ''<svg viewBox='' @ [dq] @ ''2 2 3 3'' @ [dq] @ ''>'' @ [nl] @ ''<path/>'' @ [nl]
       @ ''</svg>'' @ [nl]"

definition svg_example :: "string \<Rightarrow> string option" where
  "svg_example n = (if n = ''00007.svg'' then Some frag_example else None)"

definition sscanf_example :: "string \<Rightarrow> (int \<times> int \<times> int \<times> int) option" where
  "sscanf_example s = (if take 7 s = ''2 2 3 3'' then Some (2, 2, 3, 3) else None)"

definition env_example :: env where
  "env_example =
     \<lparr>bin_files = cyclic_bin, svg_files = svg_example, prefix = [],
      sscanf_viewbox = sscanf_example\<rparr>"

definition g_example :: globals where
  "g_example =
     init_globals\<lparr>fout := fwrite svg_header_text (fopen_r []),
                   dumpList := [\<lparr>filenum = 7, layernum = 1\<rparr>]
                               @ replicate 99 \<lparr>filenum = 0, layernum = 0\<rparr>,
                   dumpListPos := 1\<rparr>"

definition zero_color :: BIN_COLOR2 where
  "zero_color = \<lparr>col_cmd = 0, col_r = 0, col_g = 0, col_b = 0, col_z = 0\<rparr>"

definition init_state2 :: state2 where
  "init_state2 =
     \<lparr>svgdump2 = True, svgDumpState2 = DUMPSTATE_BEGIN2,
      viewMinX2 = 0, viewMinY2 = 0, viewMaxX2 = 0x10000, viewMaxY2 = 0x10000,
      fout2 = fopen_r [], fin1 = fopen_r [], fin2 = fopen_r [],
      fillColor2 = zero_color, strokeColor2 = zero_color, strokeWidth2 = 0x10000,
      strokeFlagA = 0, strokeFlagB = 0, hasStroke2 = 0, hasFill2 = 0\<rparr>"

definition after_move2 :: state2 where
  "after_move2 = snd (dumpSVGStartPath2 ff_example (snd (dumpSVGHeader2 init_state2)) (0, 0))"

definition state1_example :: state1 where
  "state1_example =
     \<lparr>svgdump1 = True, svgDumpState1 = DUMPSTATE_AFTER_START_PATH1, fout1 = fopen_r [],
      fin = fopen_r ([0, 0, 0, 4] @ replicate 24 0)\<rparr>"

definition state2_example :: state2 where
  "state2_example = after_move2\<lparr>fin2 := fopen_r (replicate 32 0)\<rparr>"

definition cmd_header_example :: "u8 list" where
  "cmd_header_example = [0, 0, 0, 11, 0, 0, 0, 0, 0, 0, 0, 0, 0, 0]"

definition points_example :: "u16 \<Rightarrow> u8 list option" where
  "points_example n = Some [0, 0, 0, 0]"

section \<open>Theorems about roundInt\<close>

lemma roundInt_ge_divisor:
  assumes "0 < d" and "d \<le> n"
  shows "roundInt n d = (if n mod d < d div 4 then n div d else n div d + 1)"
proof -
  have n0: "0 \<le> n" using assms by simp
  have l: "n sdiv d = n div d"
    using assms n0 by (simp add: signed_divide_int_def sgn_if)
  have r: "n smod d = n mod d"
    using assms n0 by (simp add: signed_modulo_int_def sgn_if)
  have q: "d sdiv 4 = d div 4"
    using assms by (simp add: signed_divide_int_def sgn_if)
  have "1 \<le> n div d"
    using assms pos_imp_zdiv_pos_iff [of d n] by linarith
  then show ?thesis
    by (simp add: roundInt_def l r q Let_def)
qed

lemma roundInt_negative:
  assumes "4 \<le> d" and "n < 0"
  shows "roundInt n d = - ((- n) div d)"
proof -
  have l: "n sdiv d = - ((- n) div d)"
    using assms by (simp add: signed_divide_int_def sgn_if)
  have r: "n smod d = - ((- n) mod d)"
    using assms by (simp add: signed_modulo_int_def sgn_if)
  have q: "d sdiv 4 = d div 4"
    using assms by (simp add: signed_divide_int_def sgn_if)
  have "0 \<le> (- n) mod d" using assms by simp
  moreover have "1 \<le> d div 4" using assms by simp
  ultimately have "n smod d < d sdiv 4" unfolding r q by linarith
  then show ?thesis
    by (simp add: roundInt_def l Let_def)
qed

text \<open>
  C1. The claim: \<open>roundInt n d\<close> is \<open>floor (n / d)\<close> when \<open>n mod d < d / 4\<close> and is
  otherwise rounded away from zero by one. The code keeps this only from \<open>n \<ge> d\<close> on
  (lemma \<open>roundInt_ge_divisor\<close>). Where the quotient is zero and the remainder is at least
  a quarter of the divisor, the test \<^verbatim>\<open>l>0\<close> fails and the result is \<open>-1\<close>: 3/4 and
  16384/32768 (half a unit of a Type 1 header) come out as \<open>-1\<close>, not as \<open>1\<close>. For a
  negative \<open>n\<close> the C remainder is never positive, so nothing is ever rounded away from
  zero: -7/4 gives \<open>-1\<close>, which is neither the floor \<open>-2\<close> nor further from zero.
\<close>

theorem roundInt_small_quotient_wrong:
  "roundInt 3 4 = - 1 \<and> roundInt 16384 32768 = - 1 \<and> roundInt (- 7) 4 = - 1"
  by (simp add: roundInt_def signed_divide_int_def signed_modulo_int_def)


section \<open>Theorems about the Dump List\<close>

lemma addToDumpList_appends:
  assumes "length (dumpList g) = MAX_DUMPLIST" and "dumpListPos g < MAX_DUMPLIST"
  shows "\<exists>g'. addToDumpList fnum lnum g = Inr (1, g')
           \<and> dl_entries g' = dl_entries g @ [\<lparr>filenum = fnum, layernum = lnum\<rparr>]
           \<and> length (dumpList g') = MAX_DUMPLIST
           \<and> dumpListPos g' = dumpListPos g + 1"
  using assms
  by (simp add: addToDumpList_def dl_entries_def take_Suc_conv_app_nth)

text \<open>
  C2 (as the code has it). The claim says that the Dump List is deduplicated by file
  identifier. \<^verbatim>\<open>addToDumpList\<close> has no such test, and neither has its caller: while the
  array has room, every reference is appended at the end, whatever the list holds, so the
  entries in use are the old ones followed by the added references in their order.
\<close>

theorem addAll_appends_every_reference:
  assumes "length (dumpList g) = MAX_DUMPLIST"
    and "dumpListPos g + length refs \<le> MAX_DUMPLIST"
  shows "\<exists>g'. addAll refs g = Inr g'
           \<and> dl_entries g' = dl_entries g @ map (\<lambda>(f, l). \<lparr>filenum = f, layernum = l\<rparr>) refs"
  using assms
proof (induction refs arbitrary: g)
  case Nil
  then show ?case by simp
next
  case (Cons r refs)
  obtain f l where r: "r = (f, l)" by (cases r)
  from Cons.prems have "dumpListPos g < MAX_DUMPLIST" by simp
  from addToDumpList_appends[OF Cons.prems(1) this, of f l] obtain g1 where
    g1: "addToDumpList f l g = Inr (1, g1)"
      "dl_entries g1 = dl_entries g @ [\<lparr>filenum = f, layernum = l\<rparr>]"
      "length (dumpList g1) = MAX_DUMPLIST" "dumpListPos g1 = dumpListPos g + 1"
    by blast
  from Cons.prems g1 have "dumpListPos g1 + length refs \<le> MAX_DUMPLIST" by simp
  from Cons.IH[OF g1(3) this] obtain g' where
    "addAll refs g1 = Inr g'"
    "dl_entries g' = dl_entries g1 @ map (\<lambda>(f, l). \<lparr>filenum = f, layernum = l\<rparr>) refs"
    by blast
  with g1 r show ?case by simp
qed

theorem addAll_appends_every_reference_witness:
  "length (dumpList init_globals) = MAX_DUMPLIST
   \<and> dumpListPos init_globals + length [(5 :: u16, 1 :: u16), (5, 2)] \<le> MAX_DUMPLIST
   \<and> (\<exists>g'. addAll [(5, 1), (5, 2)] init_globals = Inr g'
         \<and> dl_entries g' = dl_entries init_globals
              @ map (\<lambda>(f, l). \<lparr>filenum = f, layernum = l\<rparr>) [(5, 1), (5, 2)])"
proof -
  have a: "length (dumpList init_globals) = MAX_DUMPLIST"
    by (simp add: init_globals_def)
  have b: "dumpListPos init_globals + length [(5 :: u16, 1 :: u16), (5, 2)] \<le> MAX_DUMPLIST"
    by (simp add: init_globals_def MAX_DUMPLIST_def)
  from addAll_appends_every_reference[OF a b] a b show ?thesis by blast
qed

text \<open>
  The claim fails where the same file identifier is added twice: both references are in
  the list afterwards.
\<close>

theorem addToDumpList_keeps_duplicates:
  "map_sum id dl_entries (addAll [(5, 1), (5, 2)] init_globals)
   = Inr [\<lparr>filenum = 5, layernum = 1\<rparr>, \<lparr>filenum = 5, layernum = 2\<rparr>]"
proof -
  have "replicate 100 z = z # z # replicate 98 z" for z :: DUMPLIST
    by (simp add: numeral_eq_Suc)
  then show ?thesis
    by (simp add: addToDumpList_def init_globals_def MAX_DUMPLIST_def dl_entries_def)
qed

lemma swap_adjacent:
  assumes "Suc i < length refs"
  shows "\<exists>xs ys. refs = xs @ refs ! i # refs ! Suc i # ys \<and> length xs = i
           \<and> refs[i := refs ! Suc i, Suc i := refs ! i] = xs @ refs ! Suc i # refs ! i # ys"
proof -
  define xs where "xs = take i refs"
  define ys where "ys = drop (Suc (Suc i)) refs"
  have split: "refs = xs @ refs ! i # refs ! Suc i # ys"
    unfolding xs_def ys_def using assms
    by (metis Cons_nth_drop_Suc Suc_lessD append_take_drop_id)
  have li: "length xs = i" unfolding xs_def using assms by simp
  have "(xs @ refs ! i # refs ! Suc i # ys)[length xs := refs ! Suc i, Suc (length xs) := refs ! i]
        = xs @ refs ! Suc i # refs ! i # ys"
    by (simp add: list_update_append)
  with split li have "refs[i := refs ! Suc i, Suc i := refs ! i] = xs @ refs ! Suc i # refs ! i # ys"
    by simp
  with split li show ?thesis by blast
qed

lemma swap_filter:
  assumes "Suc i < length refs" and "\<not> (P (refs ! i) \<and> P (refs ! Suc i))"
  shows "filter P (refs[i := refs ! Suc i, Suc i := refs ! i]) = filter P refs"
proof -
  from swap_adjacent[OF assms(1)] obtain xs ys where
    split: "refs = xs @ refs ! i # refs ! Suc i # ys" and
    upd: "refs[i := refs ! Suc i, Suc i := refs ! i] = xs @ refs ! Suc i # refs ! i # ys"
    by blast
  have "filter P (xs @ refs ! Suc i # refs ! i # ys) = filter P (xs @ refs ! i # refs ! Suc i # ys)"
    using assms(2) by auto
  with split upd show ?thesis by simp
qed

lemma bubbleInner_length:
  "length (fst (bubbleInner dl reps i rc)) = length (fst rc)"
proof (induction dl reps i rc rule: bubbleInner.induct)
  case (1 dl reps i refs changed)
  then show ?case
    by (subst bubbleInner.simps) (simp add: Let_def)
qed

lemma bubbleInner_unchanged:
  "\<not> snd (bubbleInner dl reps i rc) \<Longrightarrow> fst (bubbleInner dl reps i rc) = fst rc \<and> \<not> snd rc"
proof (induction dl reps i rc rule: bubbleInner.induct)
  case (1 dl reps i refs changed)
  show ?case
  proof (cases "i < reps")
    case False
    then show ?thesis using "1.prems" by (simp add: bubbleInner.simps)
  next
    case True
    show ?thesis
    proof (cases "uint (layernum (dl ! (refs ! i))) > uint (layernum (dl ! (refs ! (i + 1))))")
      case sw: True
      have eq: "bubbleInner dl reps i (refs, changed)
            = bubbleInner dl reps (i + 1) (refs[i := refs ! (i + 1), i + 1 := refs ! i], True)"
        using True sw by (subst bubbleInner.simps) (simp add: Let_def)
      have "\<not> snd (bubbleInner dl reps (i + 1) (refs[i := refs ! (i + 1), i + 1 := refs ! i], True))"
        using "1.prems" eq by simp
      from "1.IH"(1)[OF True refl refl sw this] show ?thesis by auto
    next
      case ns: False
      have eq: "bubbleInner dl reps i (refs, changed) = bubbleInner dl reps (i + 1) (refs, changed)"
        using True ns by (subst bubbleInner.simps) (simp add: Let_def)
      have "\<not> snd (bubbleInner dl reps (i + 1) (refs, changed))"
        using "1.prems" eq by simp
      from "1.IH"(2)[OF True refl refl ns this] show ?thesis unfolding eq by auto
    qed
  qed
qed

lemma bubbleInner_filter:
  "reps < length (fst rc) \<Longrightarrow>
   filter (\<lambda>x. layernum (dl ! x) = k) (fst (bubbleInner dl reps i rc))
     = filter (\<lambda>x. layernum (dl ! x) = k) (fst rc)"
proof (induction dl reps i rc rule: bubbleInner.induct)
  case (1 dl reps i refs changed)
  show ?case
  proof (cases "i < reps")
    case False
    then show ?thesis by (simp add: bubbleInner.simps)
  next
    case True
    show ?thesis
    proof (cases "uint (layernum (dl ! (refs ! i))) > uint (layernum (dl ! (refs ! (i + 1))))")
      case sw: True
      have eq: "bubbleInner dl reps i (refs, changed)
            = bubbleInner dl reps (i + 1) (refs[i := refs ! (i + 1), i + 1 := refs ! i], True)"
        using True sw by (subst bubbleInner.simps) (simp add: Let_def)
      have ne: "\<not> (layernum (dl ! (refs ! i)) = k \<and> layernum (dl ! (refs ! Suc i)) = k)"
        using sw by auto
      have "Suc i < length refs" using True "1.prems" by simp
      from swap_filter[OF this, of "\<lambda>x. layernum (dl ! x) = k", OF ne]
      have "filter (\<lambda>x. layernum (dl ! x) = k) (refs[i := refs ! Suc i, Suc i := refs ! i])
            = filter (\<lambda>x. layernum (dl ! x) = k) refs" .
      with "1.IH"(1)[OF True refl refl sw] "1.prems" eq show ?thesis by simp
    next
      case ns: False
      have eq: "bubbleInner dl reps i (refs, changed) = bubbleInner dl reps (i + 1) (refs, changed)"
        using True ns by (subst bubbleInner.simps) (simp add: Let_def)
      from "1.IH"(2)[OF True refl refl ns] "1.prems" eq show ?thesis by simp
    qed
  qed
qed

lemma bubbleInner_mset:
  "reps < length (fst rc) \<Longrightarrow> mset (fst (bubbleInner dl reps i rc)) = mset (fst rc)"
proof (induction dl reps i rc rule: bubbleInner.induct)
  case (1 dl reps i refs changed)
  show ?case
  proof (cases "i < reps")
    case False
    then show ?thesis by (simp add: bubbleInner.simps)
  next
    case True
    show ?thesis
    proof (cases "uint (layernum (dl ! (refs ! i))) > uint (layernum (dl ! (refs ! (i + 1))))")
      case sw: True
      have eq: "bubbleInner dl reps i (refs, changed)
            = bubbleInner dl reps (i + 1) (refs[i := refs ! (i + 1), i + 1 := refs ! i], True)"
        using True sw by (subst bubbleInner.simps) (simp add: Let_def)
      have "Suc i < length refs" using True "1.prems" by simp
      then have "mset (refs[i := refs ! Suc i, Suc i := refs ! i]) = mset refs"
        by (simp add: mset_swap)
      with "1.IH"(1)[OF True refl refl sw] "1.prems" eq show ?thesis by simp
    next
      case ns: False
      have eq: "bubbleInner dl reps i (refs, changed) = bubbleInner dl reps (i + 1) (refs, changed)"
        using True ns by (subst bubbleInner.simps) (simp add: Let_def)
      from "1.IH"(2)[OF True refl refl ns] "1.prems" eq show ?thesis by simp
    qed
  qed
qed

lemma bubbleInner_order:
  "i \<le> reps \<Longrightarrow> reps < length (fst rc) \<Longrightarrow> ordered_above dl (fst rc) reps \<Longrightarrow>
   max_at dl (fst rc) i \<Longrightarrow>
   ordered_above dl (fst (bubbleInner dl reps i rc)) reps
   \<and> max_at dl (fst (bubbleInner dl reps i rc)) reps"
proof (induction dl reps i rc rule: bubbleInner.induct)
  case (1 dl reps i refs changed)
  show ?case
  proof (cases "i < reps")
    case False
    with "1.prems" have "i = reps" by simp
    with "1.prems" show ?thesis by (simp add: bubbleInner.simps)
  next
    case True
    have len: "Suc i < length refs" using True "1.prems" by simp
    show ?thesis
    proof (cases "uint (layernum (dl ! (refs ! i))) > uint (layernum (dl ! (refs ! (i + 1))))")
      case sw: True
      let ?refs = "refs[i := refs ! (i + 1), i + 1 := refs ! i]"
      have eq: "bubbleInner dl reps i (refs, changed) = bubbleInner dl reps (i + 1) (?refs, True)"
        using True sw by (subst bubbleInner.simps) (simp add: Let_def)
      have lt: "layernum (dl ! (refs ! Suc i)) \<le> layernum (dl ! (refs ! i))"
        using sw by (simp add: word_le_def)
      have oa: "ordered_above dl ?refs reps"
        unfolding ordered_above_def
      proof (intro allI impI)
        fix j k assume h: "j < k \<and> k < length ?refs \<and> reps < k"
        then have k: "?refs ! k = refs ! k" using True by simp
        have "\<exists>j'. j' < k \<and> ?refs ! j = refs ! j'"
        proof (cases "j = i")
          case True
          then show ?thesis using h \<open>i < reps\<close> len by (intro exI[of _ "Suc i"]) simp
        next
          case ji: False
          show ?thesis
          proof (cases "j = Suc i")
            case True
            then show ?thesis using h len by (intro exI[of _ i]) simp
          next
            case False
            then show ?thesis using ji h by (intro exI[of _ j]) simp
          qed
        qed
        then obtain j' where "j' < k" "?refs ! j = refs ! j'" by blast
        with "1.prems"(3) h k show "layernum (dl ! (?refs ! j)) \<le> layernum (dl ! (?refs ! k))"
          by (simp add: ordered_above_def)
      qed
      have ma: "max_at dl ?refs (i + 1)"
        unfolding max_at_def
      proof (intro allI impI)
        fix j assume "j < i + 1"
        show "layernum (dl ! (?refs ! j)) \<le> layernum (dl ! (?refs ! (i + 1)))"
        proof (cases "j = i")
          case True
          then show ?thesis using lt len by simp
        next
          case False
          with \<open>j < i + 1\<close> have "j < i" by simp
          with "1.prems"(4) have "layernum (dl ! (refs ! j)) \<le> layernum (dl ! (refs ! i))"
            by (simp add: max_at_def)
          then show ?thesis using \<open>j < i\<close> len by simp
        qed
      qed
      from "1.IH"(1)[OF True refl refl sw] oa ma True "1.prems"(2) eq show ?thesis by simp
    next
      case ns: False
      have eq: "bubbleInner dl reps i (refs, changed) = bubbleInner dl reps (i + 1) (refs, changed)"
        using True ns by (subst bubbleInner.simps) (simp add: Let_def)
      have le: "layernum (dl ! (refs ! i)) \<le> layernum (dl ! (refs ! Suc i))"
        using ns by (simp add: word_le_def)
      have ma: "max_at dl refs (i + 1)"
        unfolding max_at_def
      proof (intro allI impI)
        fix j assume "j < i + 1"
        show "layernum (dl ! (refs ! j)) \<le> layernum (dl ! (refs ! (i + 1)))"
        proof (cases "j = i")
          case True
          then show ?thesis using le by simp
        next
          case False
          with \<open>j < i + 1\<close> have "j < i" by simp
          with "1.prems"(4) have "layernum (dl ! (refs ! j)) \<le> layernum (dl ! (refs ! i))"
            by (simp add: max_at_def)
          with le show ?thesis by simp
        qed
      qed
      from "1.IH"(2)[OF True refl refl ns] ma True "1.prems" eq show ?thesis by simp
    qed
  qed
qed


lemma bubbleOuter_length:
  "length (fst (bubbleOuter dl reps rc)) = length (fst rc)"
proof (induction dl reps rc rule: bubbleOuter.induct)
  case (1 dl reps rc)
  then show ?case
    by (subst bubbleOuter.simps) (simp add: bubbleInner_length)
qed

lemma bubbleOuter_unchanged:
  "\<not> snd (bubbleOuter dl reps rc) \<Longrightarrow> fst (bubbleOuter dl reps rc) = fst rc"
proof (induction dl reps rc rule: bubbleOuter.induct)
  case (1 dl reps rc)
  show ?case
  proof (cases "reps > 0")
    case False
    then show ?thesis by (simp add: bubbleOuter.simps)
  next
    case True
    then have eq: "bubbleOuter dl reps rc = bubbleOuter dl (reps - 1) (bubbleInner dl reps 0 rc)"
      by (subst bubbleOuter.simps) simp
    with "1.prems" have n: "\<not> snd (bubbleOuter dl (reps - 1) (bubbleInner dl reps 0 rc))" by simp
    from "1.IH"[OF True n]
    have a: "fst (bubbleOuter dl (reps - 1) (bubbleInner dl reps 0 rc)) = fst (bubbleInner dl reps 0 rc)" .
    have "\<not> snd (bubbleInner dl reps 0 rc)"
    proof
      assume s: "snd (bubbleInner dl reps 0 rc)"
      have mono: "\<And>r q. snd q \<Longrightarrow> snd (bubbleInner dl r 0 q)"
        using bubbleInner_unchanged by blast
      have "\<And>r q. snd q \<Longrightarrow> snd (bubbleOuter dl r q)"
      proof -
        fix r q show "snd q \<Longrightarrow> snd (bubbleOuter dl r q)"
        proof (induction r arbitrary: q)
          case 0
          then show ?case by (simp add: bubbleOuter.simps)
        next
          case (Suc r)
          from Suc.IH[OF mono[OF Suc.prems, of "Suc r"]] show ?case
            by (subst bubbleOuter.simps) simp
        qed
      qed
      from this[OF s] n show False by simp
    qed
    with bubbleInner_unchanged have "fst (bubbleInner dl reps 0 rc) = fst rc" by blast
    with a eq show ?thesis by simp
  qed
qed

lemma bubbleOuter_filter:
  "reps < length (fst rc) \<Longrightarrow>
   filter (\<lambda>x. layernum (dl ! x) = k) (fst (bubbleOuter dl reps rc))
     = filter (\<lambda>x. layernum (dl ! x) = k) (fst rc)"
proof (induction dl reps rc rule: bubbleOuter.induct)
  case (1 dl reps rc)
  show ?case
  proof (cases "reps > 0")
    case False
    then show ?thesis by (simp add: bubbleOuter.simps)
  next
    case True
    then have eq: "bubbleOuter dl reps rc = bubbleOuter dl (reps - 1) (bubbleInner dl reps 0 rc)"
      by (subst bubbleOuter.simps) simp
    have "reps - 1 < length (fst (bubbleInner dl reps 0 rc))"
      using "1.prems" by (simp add: bubbleInner_length)
    from "1.IH"[OF True this] bubbleInner_filter[OF "1.prems", of dl k 0] eq
    show ?thesis by simp
  qed
qed

lemma bubbleOuter_mset:
  "reps < length (fst rc) \<Longrightarrow> mset (fst (bubbleOuter dl reps rc)) = mset (fst rc)"
proof (induction dl reps rc rule: bubbleOuter.induct)
  case (1 dl reps rc)
  show ?case
  proof (cases "reps > 0")
    case False
    then show ?thesis by (simp add: bubbleOuter.simps)
  next
    case True
    then have eq: "bubbleOuter dl reps rc = bubbleOuter dl (reps - 1) (bubbleInner dl reps 0 rc)"
      by (subst bubbleOuter.simps) simp
    have "reps - 1 < length (fst (bubbleInner dl reps 0 rc))"
      using "1.prems" by (simp add: bubbleInner_length)
    from "1.IH"[OF True this] bubbleInner_mset[OF "1.prems", of dl 0] eq
    show ?thesis by simp
  qed
qed

lemma bubbleOuter_order:
  "reps < length (fst rc) \<Longrightarrow> ordered_above dl (fst rc) reps \<Longrightarrow>
   ordered_above dl (fst (bubbleOuter dl reps rc)) 0"
proof (induction dl reps rc rule: bubbleOuter.induct)
  case (1 dl reps rc)
  show ?case
  proof (cases "reps > 0")
    case False
    then show ?thesis using "1.prems" by (simp add: bubbleOuter.simps)
  next
    case True
    then have eq: "bubbleOuter dl reps rc = bubbleOuter dl (reps - 1) (bubbleInner dl reps 0 rc)"
      by (subst bubbleOuter.simps) simp
    let ?refs = "fst (bubbleInner dl reps 0 rc)"
    have len: "reps - 1 < length ?refs"
      using "1.prems" by (simp add: bubbleInner_length)
    have "max_at dl (fst rc) 0" by (simp add: max_at_def)
    with bubbleInner_order[of 0 reps rc dl] "1.prems"
    have oa: "ordered_above dl ?refs reps" and ma: "max_at dl ?refs reps" by simp_all
    have "ordered_above dl ?refs (reps - 1)"
      unfolding ordered_above_def
    proof (intro allI impI)
      fix j k assume h: "j < k \<and> k < length ?refs \<and> reps - 1 < k"
      show "layernum (dl ! (?refs ! j)) \<le> layernum (dl ! (?refs ! k))"
      proof (cases "k = reps")
        case True
        with h ma show ?thesis by (simp add: max_at_def)
      next
        case False
        with h have "reps < k" by linarith
        with h oa show ?thesis by (simp add: ordered_above_def)
      qed
    qed
    from "1.IH"[OF True len this] eq show ?thesis by simp
  qed
qed

lemma take_as_map_nth:
  "n \<le> length xs \<Longrightarrow> take n xs = map ((!) xs) [0..<n]"
  by (rule nth_equalityI) simp_all

lemma sortDumpList_entries:
  assumes "dumpListPos g \<le> length (dumpList g)" and "2 \<le> dumpListPos g"
  shows "dl_entries (sortDumpList g)
         = map ((!) (dumpList g))
             (fst (bubbleOuter (dumpList g) (dumpListPos g - 1) ([0..<dumpListPos g], False)))"
    and "dumpListPos (sortDumpList g) = dumpListPos g"
proof -
  let ?n = "dumpListPos g"
  let ?dl = "dumpList g"
  let ?res = "bubbleOuter ?dl (?n - 1) ([0..<?n], False)"
  have len: "length (fst ?res) = ?n" by (simp add: bubbleOuter_length)
  show "dumpListPos (sortDumpList g) = dumpListPos g"
    by (simp add: sortDumpList_def Let_def case_prod_beta)
  show "dl_entries (sortDumpList g) = map ((!) ?dl) (fst ?res)"
  proof (cases "snd ?res")
    case True
    have "map (\<lambda>i. ?dl ! (fst ?res ! i)) [0..<?n] = map ((!) ?dl) (fst ?res)"
      using len by (intro nth_equalityI) simp_all
    then show ?thesis using True assms(2) len
      by (simp add: sortDumpList_def Let_def dl_entries_def case_prod_beta)
  next
    case False
    then have "fst ?res = [0..<?n]" using bubbleOuter_unchanged by fastforce
    then show ?thesis using False assms
      by (simp add: sortDumpList_def Let_def dl_entries_def take_as_map_nth case_prod_beta)
  qed
qed

text \<open>
  C8. \<^verbatim>\<open>sortDumpList\<close> is a stable sort by layer identifier of the entries in use:
  afterwards they are in nondecreasing order of \<open>layernum\<close>, and for every layer identifier
  the entries carrying it are the same, in the same order, as before. The entries are
  a rearrangement of the old ones, and their number is unchanged.
\<close>

theorem sortDumpList_stable:
  assumes "dumpListPos g \<le> length (dumpList g)"
  shows "sorted (map layernum (dl_entries (sortDumpList g)))
       \<and> (\<forall>k. filter (\<lambda>e. layernum e = k) (dl_entries (sortDumpList g))
              = filter (\<lambda>e. layernum e = k) (dl_entries g))
       \<and> mset (dl_entries (sortDumpList g)) = mset (dl_entries g)
       \<and> dumpListPos (sortDumpList g) = dumpListPos g"
proof (cases "2 \<le> dumpListPos g")
  case False
  then have same: "sortDumpList g = g" by (simp add: sortDumpList_def)
  have "length (dl_entries g) \<le> 1" using False by (simp add: dl_entries_def)
  then have "sorted (map layernum (dl_entries g))"
    by (cases "dl_entries g") (auto simp: le_Suc_eq)
  with same show ?thesis by simp
next
  case True
  let ?n = "dumpListPos g"
  let ?dl = "dumpList g"
  let ?refs = "fst (bubbleOuter ?dl (?n - 1) ([0..<?n], False))"
  note ent = sortDumpList_entries[OF assms True]
  have len: "length ?refs = ?n" by (simp add: bubbleOuter_length)
  have lt: "?n - 1 < length (fst ([0..<?n], False))" using True by simp
  have start: "ordered_above ?dl (fst ([0..<?n], False)) (?n - 1)"
    by (auto simp: ordered_above_def)
  from bubbleOuter_order[OF lt start] have oa: "ordered_above ?dl ?refs 0" .
  have srt: "sorted (map layernum (map ((!) ?dl) ?refs))"
    unfolding sorted_iff_nth_mono
  proof (intro allI impI)
    fix i j assume "i \<le> j" and "j < length (map layernum (map ((!) ?dl) ?refs))"
    then have j: "j < length ?refs" by simp
    show "map layernum (map ((!) ?dl) ?refs) ! i \<le> map layernum (map ((!) ?dl) ?refs) ! j"
    proof (cases "i = j")
      case True
      then show ?thesis by simp
    next
      case False
      with \<open>i \<le> j\<close> have "i < j" by simp
      with oa j show ?thesis by (simp add: ordered_above_def)
    qed
  qed
  have ent0: "dl_entries g = map ((!) ?dl) [0..<?n]"
    using assms by (simp add: dl_entries_def take_as_map_nth)
  have flt: "filter (\<lambda>e. layernum e = k) (map ((!) ?dl) ?refs)
           = filter (\<lambda>e. layernum e = k) (dl_entries g)" for k
    using bubbleOuter_filter[OF lt, of ?dl k]
    by (simp add: filter_map comp_def ent0)
  have ms: "mset (map ((!) ?dl) ?refs) = mset (dl_entries g)"
  proof -
    from bubbleOuter_mset[OF lt, of ?dl] have "mset ?refs = mset [0..<?n]"
      by (simp del: mset_upt)
    then show ?thesis unfolding ent0 by (metis mset_map)
  qed
  from srt flt ms ent show ?thesis by simp
qed


theorem sortDumpList_stable_witness:
  "dumpListPos dl_example \<le> length (dumpList dl_example)
   \<and> sorted (map layernum (dl_entries (sortDumpList dl_example)))
   \<and> (\<forall>k. filter (\<lambda>e. layernum e = k) (dl_entries (sortDumpList dl_example))
          = filter (\<lambda>e. layernum e = k) (dl_entries dl_example))
   \<and> mset (dl_entries (sortDumpList dl_example)) = mset (dl_entries dl_example)
   \<and> dumpListPos (sortDumpList dl_example) = dumpListPos dl_example"
proof -
  have h: "dumpListPos dl_example \<le> length (dumpList dl_example)"
    by (simp add: dl_example_def)
  from sortDumpList_stable[OF h] h show ?thesis by blast
qed

lemma sortDumpList_example:
  "dl_entries (sortDumpList dl_example)
   = [\<lparr>filenum = 8, layernum = 1\<rparr>, \<lparr>filenum = 7, layernum = 2\<rparr>, \<lparr>filenum = 9, layernum = 2\<rparr>]"
  by (simp add: sortDumpList_def dl_example_def dl_entries_def bubbleOuter.simps
      bubbleInner.simps Let_def upt_rec)

section \<open>Theorems about the emitters and the Type 2 decoder\<close>

lemma after_move2_state: "svgDumpState2 after_move2 = DUMPSTATE_AFTER_START_PATH2 \<and> svgdump2 after_move2"
  by (simp add: after_move2_def dumpSVGStartPath2_def dumpSVGHeader2_def init_state2_def)

text \<open>
  C4 (as the code has it). With SVG output enabled, the close-path operation of the
  Type 1 emitter fails (returns 1) and leaves the state and the output alone in every
  state other than the one after a line or cubic. The Type 2 emitter does so in every
  state other than the one after a line or cubic and the one after a path start: directly
  after a move it accepts the close, writes \<open>Z\<close> and goes to the closed state. With SVG
  output disabled both return 0 in every state and do nothing.
\<close>

theorem dumpSVGClosePath_state_error:
  "(svgdump1 s1 \<and> svgDumpState1 s1 \<noteq> DUMPSTATE_AFTER_LINE1 \<longrightarrow> dumpSVGClosePath1 s1 = (1, s1))
   \<and> (svgdump2 s2 \<and> svgDumpState2 s2 \<noteq> DUMPSTATE_AFTER_LINE2
        \<and> svgDumpState2 s2 \<noteq> DUMPSTATE_AFTER_START_PATH2 \<longrightarrow> dumpSVGClosePath2 s2 = (1, s2))
   \<and> (svgdump2 s2 \<and> svgDumpState2 s2 = DUMPSTATE_AFTER_START_PATH2 \<longrightarrow>
        dumpSVGClosePath2 s2
        = (0, s2\<lparr>fout2 := fwrite ''Z '' (fout2 s2), svgDumpState2 := DUMPSTATE_AFTER_CLOSE_PATH2\<rparr>))
   \<and> (\<not> svgdump1 s1 \<longrightarrow> dumpSVGClosePath1 s1 = (0, s1))
   \<and> (\<not> svgdump2 s2 \<longrightarrow> dumpSVGClosePath2 s2 = (0, s2))"
  by (simp add: dumpSVGClosePath1_def dumpSVGClosePath2_def)

theorem dumpSVGClosePath_state_error_witness:
  "dumpSVGClosePath1 state1_example = (1, state1_example)
   \<and> dumpSVGClosePath2 init_state2 = (1, init_state2)
   \<and> dumpSVGClosePath2 after_move2
       = (0, after_move2\<lparr>fout2 := fwrite ''Z '' (fout2 after_move2),
                          svgDumpState2 := DUMPSTATE_AFTER_CLOSE_PATH2\<rparr>)"
  using dumpSVGClosePath_state_error[of state1_example init_state2]
    dumpSVGClosePath_state_error[of state1_example after_move2] after_move2_state
  by (simp add: state1_example_def init_state2_def)

text \<open>
  The claim fails for the Type 2 emitter in the state reached by a header and a move:
  the close returns 0, changes the state and writes.
\<close>

theorem dumpSVGClosePath2_after_move:
  "svgDumpState2 after_move2 = DUMPSTATE_AFTER_START_PATH2
   \<and> fst (dumpSVGClosePath2 after_move2) = 0
   \<and> svgDumpState2 (snd (dumpSVGClosePath2 after_move2)) = DUMPSTATE_AFTER_CLOSE_PATH2
   \<and> contents (fout2 (snd (dumpSVGClosePath2 after_move2)))
      = contents (fout2 after_move2) @ ''Z ''"
  by (simp add: after_move2_def dumpSVGStartPath2_def dumpSVGHeader2_def init_state2_def
      dumpSVGClosePath2_def fwrite_def fopen_r_def svg_header_text_def ff_example_def dec_int_def
      dec_nat.simps)

lemma stroke_and_zero:
  "push_bit 16 (ucast (w2 :: u16) :: u32) AND ucast (w1 :: u16) = 0"
  by (rule bit_word_eqI) (auto simp: bit_simps dest: bit_imp_le_length)

lemma stroke_or_zero_iff:
  "push_bit 16 (ucast (w2 :: u16) :: u32) OR ucast (w1 :: u16) = 0 \<longleftrightarrow> w1 = 0 \<and> w2 = 0"
proof
  assume h: "push_bit 16 (ucast w2 :: u32) OR ucast w1 = 0"
  have b: "bit (push_bit 16 (ucast w2 :: u32) OR ucast w1) n = False" for n
    using h by simp
  have "w1 = 0"
  proof (rule bit_word_eqI)
    fix n assume "n < LENGTH(16)"
    with b[of n] show "bit w1 n = bit (0 :: u16) n"
      by (auto simp: bit_simps)
  qed
  moreover have "w2 = 0"
  proof (rule bit_word_eqI)
    fix n assume "n < LENGTH(16)"
    with b[of "n + 16"] show "bit w2 n = bit (0 :: u16) n"
      by (auto simp: bit_simps)
  qed
  ultimately show "w1 = 0 \<and> w2 = 0" by simp
next
  assume "w1 = 0 \<and> w2 = 0"
  then show "push_bit 16 (ucast w2 :: u32) OR ucast w1 = 0" by simp
qed

text \<open>
  C5. A STROKE\_WIDTH command (opcode 0x0A) sets the stroke width to the second
  parameter word shifted left by 16 bits, combined with the first parameter word by
  bitwise AND; the command loop goes on. The two operands have no bit in common; the
  result is the bitwise OR of the two halves only when both words are zero.
\<close>

theorem stroke_width_is_and:
  assumes "cmdw ! 0 = 0x0A"
  shows "process_cmd2 ff cmdw st
         = (Continue, st\<lparr>strokeWidth2 := push_bit 16 (ucast (cmdw ! 2)) AND ucast (cmdw ! 1)\<rparr>)
       \<and> (push_bit 16 (ucast (cmdw ! 2) :: u32) AND ucast (cmdw ! 1)
            = push_bit 16 (ucast (cmdw ! 2)) OR ucast (cmdw ! 1)
          \<longleftrightarrow> cmdw ! 1 = 0 \<and> cmdw ! 2 = 0)"
proof -
  have "process_cmd2 ff cmdw st = STROKE_WIDTH2 cmdw st"
    using assms by (simp add: process_cmd2_def)
  moreover have "push_bit 16 (ucast (cmdw ! 2) :: u32) AND ucast (cmdw ! 1) = 0"
    by (rule stroke_and_zero)
  moreover have "(0 = push_bit 16 (ucast (cmdw ! 2) :: u32) OR ucast (cmdw ! 1))
                 \<longleftrightarrow> cmdw ! 1 = 0 \<and> cmdw ! 2 = 0"
    using stroke_or_zero_iff[of "cmdw ! 2" "cmdw ! 1"] by (metis (no_types))
  ultimately show ?thesis by (simp add: STROKE_WIDTH2_def)
qed

theorem stroke_width_is_and_witness:
  "[0x0A, 0x8000, 1, 0, 0 :: u16] ! 0 = 0x0A
   \<and> strokeWidth2 (snd (process_cmd2 ff_example [0x0A, 0x8000, 1, 0, 0] init_state2)) = 0"
  using stroke_width_is_and[of "[0x0A, 0x8000, 1, 0, 0]" ff_example init_state2]
  by simp

lemma fwrite_at_end:
  "position f = length (contents f) \<Longrightarrow>
   fwrite cs f = f\<lparr>contents := contents f @ cs, position := length (contents f) + length cs\<rparr>"
  by (simp add: fwrite_def Let_def)

lemma fread_enough:
  "position f + n \<le> length (contents f) \<Longrightarrow>
   fread n f = (Some (take n (drop (position f) (contents f))), f\<lparr>position := position f + n\<rparr>)"
  by (simp add: fread_def Let_def)

lemma length_be32s: "length (be32s bs) = length bs div 4"
  by (induction bs rule: be32s.induct) simp_all

lemma length_mixed32s: "length (mixed32s bs) = length bs div 4"
  by (induction bs rule: mixed32s.induct) simp_all

lemma length_points_of: "length (points_of vs) = length vs div 2"
  by (induction vs rule: points_of.induct) simp_all

lemma length_cubics_of: "length (cubics_of ps) = length ps div 3"
  by (induction ps rule: cubics_of.induct) simp_all

lemma accView_frame:
  "svgdump2 (accView i vs st) = svgdump2 st
   \<and> svgDumpState2 (accView i vs st) = svgDumpState2 st
   \<and> fout2 (accView i vs st) = fout2 st
   \<and> fin1 (accView i vs st) = fin1 st
   \<and> fin2 (accView i vs st) = fin2 st"
  by (induction i vs st rule: accView.induct) simp_all

lemma cubicLoop1_emits:
  assumes "svgdump1 st"
    and "svgDumpState1 st = DUMPSTATE_AFTER_START_PATH1 \<or> svgDumpState1 st = DUMPSTATE_AFTER_LINE1"
    and "position (fout1 st) = length (contents (fout1 st))"
    and "position (fin st) + 24 * n \<le> length (contents (fin st))"
  shows "\<exists>cs. length cs = n
           \<and> contents (fout1 (cubicLoop1 ff n st))
               = contents (fout1 st) @ concat (map (cubic_text ff) cs)
           \<and> position (fin (cubicLoop1 ff n st)) = position (fin st) + 24 * n"
  using assms
proof (induction n arbitrary: st)
  case 0
  then show ?case by simp
next
  case (Suc n)
  let ?f = "(fin st)\<lparr>position := position (fin st) + 24\<rparr>"
  let ?bs = "take 24 (drop (position (fin st)) (contents (fin st)))"
  let ?vs = "be32s ?bs"
  let ?c = "((sint (?vs ! 0), sint (?vs ! 1)), (sint (?vs ! 2), sint (?vs ! 3)),
             (sint (?vs ! 4), sint (?vs ! 5)))"
  have rd: "bo_fread4 6 (fin st) = (Some ?vs, ?f)"
    using Suc.prems(4) by (simp add: bo_fread4_def fread_enough)
  let ?st1 = "st\<lparr>fin := ?f, fout1 := fwrite (cubic_text ff ?c) (fout1 st),
                  svgDumpState1 := DUMPSTATE_AFTER_LINE1\<rparr>"
  have step: "cubicLoop1 ff (Suc n) st = cubicLoop1 ff n ?st1"
    using Suc.prems(1,2) by (auto simp: rd dumpSVGCubic1_def)
  have p1: "svgdump1 ?st1" using Suc.prems(1) by simp
  have p2: "svgDumpState1 ?st1 = DUMPSTATE_AFTER_START_PATH1
            \<or> svgDumpState1 ?st1 = DUMPSTATE_AFTER_LINE1" by simp
  have p3: "position (fout1 ?st1) = length (contents (fout1 ?st1))"
    using Suc.prems(3) by (simp add: fwrite_at_end)
  have p4: "position (fin ?st1) + 24 * n \<le> length (contents (fin ?st1))"
    using Suc.prems(4) by simp
  from Suc.IH[OF p1 p2 p3 p4] obtain cs where
    cs: "length cs = n"
      "contents (fout1 (cubicLoop1 ff n ?st1))
         = contents (fout1 ?st1) @ concat (map (cubic_text ff) cs)"
      "position (fin (cubicLoop1 ff n ?st1)) = position (fin ?st1) + 24 * n"
    by blast
  have "contents (fout1 ?st1) = contents (fout1 st) @ cubic_text ff ?c"
    using Suc.prems(3) by (simp add: fwrite_at_end)
  with cs step show ?case
    by (intro exI[of _ "?c # cs"]) simp
qed

lemma dumpCubics2_emits:
  assumes "svgdump2 st"
    and "svgDumpState2 st = DUMPSTATE_AFTER_START_PATH2 \<or> svgDumpState2 st = DUMPSTATE_AFTER_LINE2"
    and "position (fout2 st) = length (contents (fout2 st))"
  shows "contents (fout2 (dumpCubics2 ff st cs))
         = contents (fout2 st) @ concat (map (cubic_text ff) cs)"
  using assms
proof (induction cs arbitrary: st)
  case Nil
  then show ?case by simp
next
  case (Cons c cs)
  let ?st1 = "st\<lparr>fout2 := fwrite (cubic_text ff c) (fout2 st),
                  svgDumpState2 := DUMPSTATE_AFTER_LINE2\<rparr>"
  have em: "dumpSVGCubic2 ff st c = (0, ?st1)"
    using Cons.prems(1,2) by (auto simp: dumpSVGCubic2_def)
  have p3: "position (fout2 ?st1) = length (contents (fout2 ?st1))"
    using Cons.prems(3) by (simp add: fwrite_at_end)
  have "contents (fout2 (dumpCubics2 ff ?st1 cs))
        = contents (fout2 ?st1) @ concat (map (cubic_text ff) cs)"
    using Cons.prems(1) p3 by (intro Cons.IH) simp_all
  moreover have "contents (fout2 ?st1) = contents (fout2 st) @ cubic_text ff c"
    using Cons.prems(3) by (simp add: fwrite_at_end)
  ultimately show ?case by (simp add: em)
qed

lemma POINTS_CUBICS2_emits:
  assumes "unat (cmdw ! 1) mod 3 = 0" and "cmdw ! 1 \<noteq> 0" and "svgdump2 st"
    and "svgDumpState2 st = DUMPSTATE_AFTER_START_PATH2 \<or> svgDumpState2 st = DUMPSTATE_AFTER_LINE2"
    and "position (fout2 st) = length (contents (fout2 st))"
    and "position (fin2 st) + 8 * unat (cmdw ! 1) \<le> length (contents (fin2 st))"
  shows "\<exists>cs st'. POINTS_CUBICS2 ff cmdw st = (Continue, st')
           \<and> length cs = unat (cmdw ! 1) div 3
           \<and> contents (fout2 st') = contents (fout2 st) @ concat (map (cubic_text ff) cs)"
proof -
  let ?n = "unat (cmdw ! 1)"
  let ?bs = "take (4 * (?n * 2)) (drop (position (fin2 st)) (contents (fin2 st)))"
  let ?vs = "map sint (mixed32s ?bs)"
  let ?st1 = "accView 0 ?vs (st\<lparr>fin2 := (fin2 st)\<lparr>position := position (fin2 st) + 4 * (?n * 2)\<rparr>\<rparr>)"
  let ?cs = "take (?n div 3) (cubics_of (points_of ?vs))"
  have n0: "?n \<noteq> 0" using assms(2) by (simp add: unat_eq_0)
  have rd: "bo_fread4_points (?n * 2) st = (Some ?vs, ?st1)"
    using assms(6) by (simp add: bo_fread4_points_def fread_enough Let_def)
  have eq: "POINTS_CUBICS2 ff cmdw st = (Continue, dumpCubics2 ff ?st1 ?cs)"
    unfolding POINTS_CUBICS2_def Let_def rd using assms(1) n0 by simp
  have "length ?bs = 8 * ?n" using assms(6) by simp
  then have "length ?vs = 2 * ?n" by (simp add: length_mixed32s)
  then have "length (cubics_of (points_of ?vs)) = ?n div 3"
    by (simp add: length_cubics_of length_points_of)
  then have len: "length ?cs = ?n div 3" by simp
  have "contents (fout2 (dumpCubics2 ff ?st1 ?cs))
        = contents (fout2 ?st1) @ concat (map (cubic_text ff) ?cs)"
    using assms(3,4,5) by (intro dumpCubics2_emits) (simp_all add: accView_frame)
  then have "contents (fout2 (dumpCubics2 ff ?st1 ?cs))
        = contents (fout2 st) @ concat (map (cubic_text ff) ?cs)"
    by (simp add: accView_frame)
  with eq len show ?thesis by blast
qed

text \<open>
  C6 (as the code has it). Type 1: with SVG output enabled, in a path and at the end of
  the output, a cubic command whose point count is \<open>pcount\<close> and whose \<open>pcount div 3\<close>
  groups of six values are in the stream appends exactly \<open>pcount div 3\<close> cubic segments
  and consumes the count and those groups only; the command loop goes on.
  Type 2: a POINTS\_CUBICS command whose point count is zero or not a multiple of three
  leaves the command loop, with nothing read or written; with a positive multiple of
  three, whose points are in the points file, exactly a third as many cubic segments are
  appended.
\<close>

theorem cubic_blocks:
  "(svgdump1 s1
      \<and> (svgDumpState1 s1 = DUMPSTATE_AFTER_START_PATH1 \<or> svgDumpState1 s1 = DUMPSTATE_AFTER_LINE1)
      \<and> position (fout1 s1) = length (contents (fout1 s1))
      \<and> bo_fread4 1 (fin s1) = (Some [pcount], f)
      \<and> position f + 24 * (unat pcount div 3) \<le> length (contents f)
    \<longrightarrow> (\<exists>cs s1'. CMD_08_CUBIC ff s1 = (Continue, s1')
            \<and> length cs = unat pcount div 3
            \<and> contents (fout1 s1') = contents (fout1 s1) @ concat (map (cubic_text ff) cs)
            \<and> position (fin s1') = position f + 24 * (unat pcount div 3)))
   \<and> (cmdw ! 0 = 0x04 \<and> (unat (cmdw ! 1) mod 3 \<noteq> 0 \<or> cmdw ! 1 = 0)
    \<longrightarrow> process_cmd2 ff cmdw s2 = (Break, s2))
   \<and> (cmdw' ! 0 = 0x04 \<and> unat (cmdw' ! 1) mod 3 = 0 \<and> cmdw' ! 1 \<noteq> 0
      \<and> svgdump2 s2
      \<and> (svgDumpState2 s2 = DUMPSTATE_AFTER_START_PATH2 \<or> svgDumpState2 s2 = DUMPSTATE_AFTER_LINE2)
      \<and> position (fout2 s2) = length (contents (fout2 s2))
      \<and> position (fin2 s2) + 8 * unat (cmdw' ! 1) \<le> length (contents (fin2 s2))
    \<longrightarrow> (\<exists>cs s2'. process_cmd2 ff cmdw' s2 = (Continue, s2')
            \<and> length cs = unat (cmdw' ! 1) div 3
            \<and> contents (fout2 s2') = contents (fout2 s2) @ concat (map (cubic_text ff) cs)))"
proof (intro conjI impI)
  assume h: "svgdump1 s1
      \<and> (svgDumpState1 s1 = DUMPSTATE_AFTER_START_PATH1 \<or> svgDumpState1 s1 = DUMPSTATE_AFTER_LINE1)
      \<and> position (fout1 s1) = length (contents (fout1 s1))
      \<and> bo_fread4 1 (fin s1) = (Some [pcount], f)
      \<and> position f + 24 * (unat pcount div 3) \<le> length (contents f)"
  let ?s = "s1\<lparr>fin := f\<rparr>"
  have eq: "CMD_08_CUBIC ff s1 = (Continue, cubicLoop1 ff (unat pcount div 3) ?s)"
    using h by (simp add: CMD_08_CUBIC_def)
  have "\<exists>cs. length cs = unat pcount div 3
           \<and> contents (fout1 (cubicLoop1 ff (unat pcount div 3) ?s))
               = contents (fout1 ?s) @ concat (map (cubic_text ff) cs)
           \<and> position (fin (cubicLoop1 ff (unat pcount div 3) ?s))
               = position (fin ?s) + 24 * (unat pcount div 3)"
    using h by (intro cubicLoop1_emits) simp_all
  with eq show "\<exists>cs s1'. CMD_08_CUBIC ff s1 = (Continue, s1')
            \<and> length cs = unat pcount div 3
            \<and> contents (fout1 s1') = contents (fout1 s1) @ concat (map (cubic_text ff) cs)
            \<and> position (fin s1') = position f + 24 * (unat pcount div 3)"
    by auto
next
  assume "cmdw ! 0 = 0x04 \<and> (unat (cmdw ! 1) mod 3 \<noteq> 0 \<or> cmdw ! 1 = 0)"
  then show "process_cmd2 ff cmdw s2 = (Break, s2)"
    by (auto simp: process_cmd2_def POINTS_CUBICS2_def Let_def)
next
  assume h: "cmdw' ! 0 = 0x04 \<and> unat (cmdw' ! 1) mod 3 = 0 \<and> cmdw' ! 1 \<noteq> 0
      \<and> svgdump2 s2
      \<and> (svgDumpState2 s2 = DUMPSTATE_AFTER_START_PATH2 \<or> svgDumpState2 s2 = DUMPSTATE_AFTER_LINE2)
      \<and> position (fout2 s2) = length (contents (fout2 s2))
      \<and> position (fin2 s2) + 8 * unat (cmdw' ! 1) \<le> length (contents (fin2 s2))"
  then have "process_cmd2 ff cmdw' s2 = POINTS_CUBICS2 ff cmdw' s2"
    by (simp add: process_cmd2_def)
  moreover have "\<exists>cs st'. POINTS_CUBICS2 ff cmdw' s2 = (Continue, st')
           \<and> length cs = unat (cmdw' ! 1) div 3
           \<and> contents (fout2 st') = contents (fout2 s2) @ concat (map (cubic_text ff) cs)"
    using h by (intro POINTS_CUBICS2_emits) simp_all
  ultimately show "\<exists>cs s2'. process_cmd2 ff cmdw' s2 = (Continue, s2')
            \<and> length cs = unat (cmdw' ! 1) div 3
            \<and> contents (fout2 s2') = contents (fout2 s2) @ concat (map (cubic_text ff) cs)"
    by simp
qed

lemma state2_example_facts:
  "svgdump2 state2_example
   \<and> svgDumpState2 state2_example = DUMPSTATE_AFTER_START_PATH2
   \<and> position (fout2 state2_example) = length (contents (fout2 state2_example))
   \<and> position (fin2 state2_example) = 0 \<and> length (contents (fin2 state2_example)) = 32"
  by (simp add: state2_example_def after_move2_def dumpSVGStartPath2_def dumpSVGHeader2_def
      init_state2_def fwrite_def fopen_r_def)

theorem cubic_blocks_witness:
  "(\<exists>cs s1'. CMD_08_CUBIC ff_example state1_example = (Continue, s1')
       \<and> length cs = unat (4 :: u32) div 3
       \<and> contents (fout1 s1') = contents (fout1 state1_example) @ concat (map (cubic_text ff_example) cs)
       \<and> position (fin s1') = 4 + 24 * (unat (4 :: u32) div 3))
   \<and> process_cmd2 ff_example [4, 4, 0, 0, 0] state2_example = (Break, state2_example)
   \<and> (\<exists>cs s2'. process_cmd2 ff_example [4, 3, 0, 0, 0] state2_example = (Continue, s2')
       \<and> length cs = unat (3 :: u16) div 3
       \<and> contents (fout2 s2') = contents (fout2 state2_example) @ concat (map (cubic_text ff_example) cs))"
proof -
  have rd: "bo_fread4 1 (fin state1_example)
            = (Some [4], (fin state1_example)\<lparr>position := 4\<rparr>)"
    by (simp add: state1_example_def bo_fread4_def fread_def fopen_r_def be32_def)
  have a: "svgdump1 state1_example
      \<and> (svgDumpState1 state1_example = DUMPSTATE_AFTER_START_PATH1
          \<or> svgDumpState1 state1_example = DUMPSTATE_AFTER_LINE1)
      \<and> position (fout1 state1_example) = length (contents (fout1 state1_example))
      \<and> bo_fread4 1 (fin state1_example) = (Some [4], (fin state1_example)\<lparr>position := 4\<rparr>)
      \<and> position ((fin state1_example)\<lparr>position := 4\<rparr>) + 24 * (unat (4 :: u32) div 3)
          \<le> length (contents ((fin state1_example)\<lparr>position := 4\<rparr>))"
    using rd by (simp add: state1_example_def fopen_r_def)
  have b: "[4, 4, 0, 0, 0 :: u16] ! 0 = 0x04
           \<and> (unat ([4, 4, 0, 0, 0 :: u16] ! 1) mod 3 \<noteq> 0 \<or> [4, 4, 0, 0, 0 :: u16] ! 1 = 0)"
    by simp
  have c: "[4, 3, 0, 0, 0 :: u16] ! 0 = 0x04 \<and> unat ([4, 3, 0, 0, 0 :: u16] ! 1) mod 3 = 0
      \<and> [4, 3, 0, 0, 0 :: u16] ! 1 \<noteq> 0
      \<and> svgdump2 state2_example
      \<and> (svgDumpState2 state2_example = DUMPSTATE_AFTER_START_PATH2
          \<or> svgDumpState2 state2_example = DUMPSTATE_AFTER_LINE2)
      \<and> position (fout2 state2_example) = length (contents (fout2 state2_example))
      \<and> position (fin2 state2_example) + 8 * unat ([4, 3, 0, 0, 0 :: u16] ! 1)
          \<le> length (contents (fin2 state2_example))"
    using state2_example_facts by simp
  from cubic_blocks[of state1_example 4 "(fin state1_example)\<lparr>position := 4\<rparr>" ff_example
      "[4, 4, 0, 0, 0]" state2_example "[4, 3, 0, 0, 0]"] a b c
  show ?thesis by simp
qed

text \<open>
  The claim fails for Type 2: with a point count of 4, and all four points present in
  the points file, the command is not decoded as one cubic; the command loop is left and
  the state is as before.
\<close>

theorem POINTS_CUBICS2_rejects_remainder:
  "process_cmd2 ff_example [4, 4, 0, 0, 0] state2_example = (Break, state2_example)
   \<and> length (contents (fin2 state2_example)) - position (fin2 state2_example) = 8 * 4"
  using state2_example_facts
  by (simp add: process_cmd2_def POINTS_CUBICS2_def)

lemma bo_fread2_enough:
  "position f + 2 * n \<le> length (contents f) \<Longrightarrow>
   bo_fread2 n f = (Some (be16s (take (2 * n) (drop (position f) (contents f)))),
                    f\<lparr>position := position f + 2 * n\<rparr>)"
  by (simp add: bo_fread2_def fread_enough)

text \<open>
  C3 (as the code has it). For a command file whose header is read and accepted and whose
  last ten bytes are read as the footer: when the footer's opcode is not 0x01 or one of
  its three reserved words is not zero, \<^verbatim>\<open>main\<close> returns 1 before the decoder state
  exists, whatever the points file and the commands are; when the opcode is 0x01 and the
  three reserved words are zero, and the points file opens and holds its header, the
  decoding is started.
\<close>

theorem main2_footer_check:
  assumes "bo_fread2 7 (fopen_r cmdFile) = (Some header, f)"
    and "0x0A < header ! 1"
    and "bo_fread2 5 (fseek_end_back 10 f) = (Some footer, f')"
  shows "(\<not> (footer ! 0 = 0x01 \<and> footer ! 2 = 0 \<and> footer ! 3 = 0 \<and> footer ! 4 = 0)
            \<longrightarrow> (\<forall>pf u. main2 ff dump cmdFile pf u = Inr (1, None)))
       \<and> (footer ! 0 = 0x01 \<and> footer ! 2 = 0 \<and> footer ! 3 = 0 \<and> footer ! 4 = 0
            \<longrightarrow> pointsFile (footer ! 1) = Some pts \<longrightarrow> 4 \<le> length pts
            \<longrightarrow> main2 ff dump cmdFile pointsFile uninit \<noteq> Inr (1, None))"
proof (intro conjI impI allI)
  fix pf u
  assume "\<not> (footer ! 0 = 0x01 \<and> footer ! 2 = 0 \<and> footer ! 3 = 0 \<and> footer ! 4 = 0)"
  then show "main2 ff dump cmdFile pf u = Inr (1, None)"
    using assms by (auto simp: main2_def)
next
  assume ok: "footer ! 0 = 0x01 \<and> footer ! 2 = 0 \<and> footer ! 3 = 0 \<and> footer ! 4 = 0"
    and pts: "pointsFile (footer ! 1) = Some pts" "4 \<le> length pts"
  have "position (fopen_r pts) + 2 * 2 \<le> length (contents (fopen_r pts))"
    using pts(2) by (simp add: fopen_r_def)
  from bo_fread2_enough[OF this] obtain ph p where
    rd: "bo_fread2 2 (fopen_r pts) = (Some ph, p)" by blast
  have nle: "\<not> header ! 1 \<le> 0x0A" using assms(2) by simp
  show "main2 ff dump cmdFile pointsFile uninit \<noteq> Inr (1, None)"
    using assms(1,3) nle ok pts(1) rd
    by (simp add: main2_def Let_def split: sum.splits prod.splits)
qed

theorem main2_footer_check_witness:
  "main2 ff_example False (cmd_header_example @ [0, 1, 0, 52, 0, 0, 0, 0, 0, 1]) points_example
     init_state2 = Inr (1, None)
   \<and> main2 ff_example False (cmd_header_example @ [0, 1, 0, 52, 0, 0, 0, 0, 0, 0]) points_example
       init_state2 \<noteq> Inr (1, None)"
proof -
  let ?bad = "cmd_header_example @ [0, 1, 0, 52, 0, 0, 0, 0, 0, 1]"
  let ?good = "cmd_header_example @ [0, 1, 0, 52, 0, 0, 0, 0, 0, 0]"
  have h1: "bo_fread2 7 (fopen_r ?bad)
            = (Some [0, 11, 0, 0, 0, 0, 0], (fopen_r ?bad)\<lparr>position := 14\<rparr>)"
    by (simp add: bo_fread2_def fread_def fopen_r_def cmd_header_example_def be16_def Let_def)
  have h2: "0x0A < [0, 11, 0, 0, 0, 0, 0 :: u16] ! 1" by simp
  have h3: "bo_fread2 5 (fseek_end_back 10 ((fopen_r ?bad)\<lparr>position := 14\<rparr>))
            = (Some [1, 52, 0, 0, 1], (fopen_r ?bad)\<lparr>position := 24\<rparr>)"
    by (simp add: bo_fread2_def fread_def fopen_r_def cmd_header_example_def be16_def
        fseek_end_back_def Let_def)
  have g1: "bo_fread2 7 (fopen_r ?good)
            = (Some [0, 11, 0, 0, 0, 0, 0], (fopen_r ?good)\<lparr>position := 14\<rparr>)"
    by (simp add: bo_fread2_def fread_def fopen_r_def cmd_header_example_def be16_def Let_def)
  have g3: "bo_fread2 5 (fseek_end_back 10 ((fopen_r ?good)\<lparr>position := 14\<rparr>))
            = (Some [1, 52, 0, 0, 0], (fopen_r ?good)\<lparr>position := 24\<rparr>)"
    by (simp add: bo_fread2_def fread_def fopen_r_def cmd_header_example_def be16_def
        fseek_end_back_def Let_def)
  have p: "points_example ([1, 52, 0, 0, 0] ! 1) = Some [0, 0, 0, 0]"
    by (simp add: points_example_def)
  from main2_footer_check[OF h1 h2 h3, of ff_example False]
    main2_footer_check[OF g1 h2 g3, of ff_example False points_example "[0, 0, 0, 0]" init_state2] p
  show ?thesis by simp
qed

text \<open>
  The claim fails on a footer whose opcode and reserved words are all zero: the file is
  rejected.
\<close>

theorem main2_rejects_zero_opcode_footer:
  "main2 ff_example False (cmd_header_example @ [0, 0, 0, 52, 0, 0, 0, 0, 0, 0]) points_example
     init_state2 = Inr (1, None)"
  by (simp add: main2_def bo_fread2_def fread_def fopen_r_def cmd_header_example_def be16_def
      fseek_end_back_def Let_def)

section \<open>Theorems about the viewport patch\<close>

lemma length_dec_nat:
  "0 < k \<Longrightarrow> n < 10 ^ k \<Longrightarrow> length (dec_nat n) \<le> k"
proof (induction k arbitrary: n)
  case 0
  then show ?case by simp
next
  case (Suc k)
  show ?case
  proof (cases "n < 10")
    case True
    then show ?thesis by (subst dec_nat.simps) simp
  next
    case False
    then have k: "0 < k" using Suc.prems(2) by (cases k) simp_all
    have "n div 10 < 10 ^ k" using Suc.prems(2) by (simp add: less_mult_imp_div_less)
    from Suc.IH[OF k this] False show ?thesis by (subst dec_nat.simps) simp
  qed
qed

lemma length_dec_nat_pos: "0 < length (dec_nat n)"
  by (subst dec_nat.simps) simp

lemma length_dec_int_16:
  assumes "- 32768 \<le> v" and "v \<le> 32768"
  shows "length (dec_int v) \<le> 6"
proof -
  have "nat \<bar>v\<bar> < 10 ^ 5" using assms by simp
  from length_dec_nat[OF _ this] have "length (dec_nat (nat \<bar>v\<bar>)) \<le> 5" by simp
  then show ?thesis by (auto simp: dec_int_def abs_if)
qed

lemma roundInt_scale2_range:
  assumes "- 2147483648 \<le> n" and "n \<le> 2147483647"
  shows "- 32768 \<le> roundInt n scaleFactor2 \<and> roundInt n scaleFactor2 \<le> 32768"
proof (cases "0 \<le> n")
  have q: "(65536 :: int) sdiv 4 = 16384" by (simp add: signed_divide_int_def)
  case True
  then have l: "n sdiv 65536 = n div 65536" and r: "n smod 65536 = n mod 65536"
    by (simp_all add: signed_divide_int_def signed_modulo_int_def sgn_if)
  have "n div 65536 \<le> 32767" using assms(2) by simp
  moreover have "0 \<le> n div 65536" using True by simp
  ultimately show ?thesis
    by (simp add: roundInt_def scaleFactor2_def Let_def l r q)
next
  have q: "(65536 :: int) sdiv 4 = 16384" by (simp add: signed_divide_int_def)
  case False
  then have l: "n sdiv 65536 = - ((- n) div 65536)" and r: "n smod 65536 = - ((- n) mod 65536)"
    by (simp_all add: signed_divide_int_def signed_modulo_int_def sgn_if)
  have "(- n) div 65536 \<le> 32768" using assms(1) by simp
  moreover have "0 \<le> (- n) div 65536" using False by simp
  moreover have "0 \<le> (- n) mod 65536" by simp
  ultimately show ?thesis
    by (simp add: roundInt_def scaleFactor2_def Let_def l r q)
qed

lemma length_viewbox_text:
  "length (viewbox_text a b c d)
   = 5 + length (dec_int a) + length (dec_int b) + length (dec_int c) + length (dec_int d)"
  by (simp add: viewbox_text_def)

lemma length_rpad26: "26 \<le> length (rpad26 buf)"
  by (simp add: rpad26_def)

lemma setViewbox_patch:
  assumes "length (viewbox_text minx miny maxx maxy) < 30" and "39 \<le> length (contents f)"
  shows "\<exists>f'. setViewbox f minx miny maxx maxy = Inr (0, f')
           \<and> position f' = position f
           \<and> length (contents f') = length (contents f)
           \<and> take 13 (contents f') = take 13 (contents f)
           \<and> take 26 (drop 13 (contents f')) = take 26 (rpad26 (viewbox_text minx miny maxx maxy))
           \<and> drop 39 (contents f') = drop 39 (contents f)"
proof -
  let ?w = "take 26 (rpad26 (viewbox_text minx miny maxx maxy))"
  have lw: "length ?w = 26" using length_rpad26[of "viewbox_text minx miny maxx maxy"] by simp
  let ?f2 = "fwrite ?w (fseek_set 13 f)"
  have c: "contents ?f2 = take 13 (contents f) @ ?w @ drop 39 (contents f)"
    using assms(2) lw by (simp add: fwrite_def fseek_set_def Let_def)
  have eq: "setViewbox f minx miny maxx maxy = Inr (0, fseek_set (position f) ?f2)"
    using assms(1) by (simp add: setViewbox_def Let_def)
  have l13: "length (take 13 (contents f)) = 13" using assms(2) by simp
  have "take 13 (contents ?f2) = take 13 (contents f)"
    unfolding c using l13 by simp
  moreover have "drop 13 (contents ?f2) = ?w @ drop 39 (contents f)"
    unfolding c using l13 by simp
  then have "take 26 (drop 13 (contents ?f2)) = ?w" using lw by simp
  moreover have "drop 39 (contents ?f2) = drop 39 (contents f)"
  proof -
    have "drop 39 (contents ?f2) = drop 26 (drop 13 (contents ?f2))" by simp
    also have "\<dots> = drop 26 (?w @ drop 39 (contents f))"
      using \<open>drop 13 (contents ?f2) = ?w @ drop 39 (contents f)\<close> by simp
    also have "\<dots> = drop 39 (contents f)" using lw by simp
    finally show ?thesis .
  qed
  moreover have "length (contents ?f2) = length (contents f)"
    unfolding c using assms(2) lw by simp
  ultimately show ?thesis using eq by (simp add: fseek_set_def)
qed

lemma dumpSVGSetViewbox2_fits:
  assumes "- 2147483648 \<le> minx" "minx \<le> 2147483647" "- 2147483648 \<le> miny" "miny \<le> 2147483647"
    and "- 2147483648 \<le> maxx" "maxx \<le> 2147483647" "- 2147483648 \<le> maxy" "maxy \<le> 2147483647"
  shows "\<exists>st'. dumpSVGSetViewbox2 st minx miny maxx maxy = Inr (0, st')"
proof -
  note r = roundInt_scale2_range
  have "length (viewbox_text (roundInt minx scaleFactor2) (roundInt miny scaleFactor2)
                  (roundInt maxx scaleFactor2) (roundInt maxy scaleFactor2)) \<le> 29"
    unfolding length_viewbox_text
    using length_dec_int_16[of "roundInt minx scaleFactor2"] r[OF assms(1,2)]
      length_dec_int_16[of "roundInt miny scaleFactor2"] r[OF assms(3,4)]
      length_dec_int_16[of "roundInt maxx scaleFactor2"] r[OF assms(5,6)]
      length_dec_int_16[of "roundInt maxy scaleFactor2"] r[OF assms(7,8)]
    by linarith
  then show ?thesis by (simp add: dumpSVGSetViewbox2_def Let_def)
qed

text \<open>
  C9. The claim: every viewport patch writes exactly 26 bytes over the placeholder at
  offset 13 and puts the stream back, whatever the four bounds are. The code does so
  while the formatted text has fewer than 30 characters (lemma \<open>setViewbox_patch\<close>),
  which is always the case for the rounded bounds of ubvff2 (lemma
  \<open>dumpSVGSetViewbox2_fits\<close>). vecass formats the bounds it has read from the fragments
  as they are: four values of ten and eleven characters give a text of 47 characters,
  which \<^verbatim>\<open>sprintf\<close> writes, with its terminator, into \<^verbatim>\<open>char buf[30]\<close>.
\<close>

theorem setViewbox_overflows_buffer:
  "setViewbox f (- 2147483648) (- 2147483648) 2147483647 2147483647 = Inl BufferOverflow
   \<and> length (viewbox_text (- 2147483648) (- 2147483648) 2147483647 2147483647) = 47"
  by (simp add: setViewbox_def viewbox_text_def dec_int_def dec_nat.simps Let_def)

text \<open>
  A text of 27 to 29 characters fits the buffer; its first 26 characters are written,
  without the closing quote.
\<close>

lemma setViewbox_truncates:
  "take 26 (rpad26 (viewbox_text (- 10000) (- 10000) 10000 10000))
   = [CHR 0x22] @ ''-10000 -10000 10000 10000''"
  by (simp add: rpad26_def viewbox_text_def dec_int_def dec_nat.simps)

section \<open>Theorems about the recursive assembler\<close>

lemma wf_pf_rel: "wf pf_rel"
  unfolding pf_rel_def by (intro wf_inv_image wf_lex_prod wf_less_than)

lemma view_widened_refl: "view_widened g g"
  by (simp add: view_widened_def)

lemma view_widened_trans: "view_widened g g' \<Longrightarrow> view_widened g' g'' \<Longrightarrow> view_widened g g''"
  by (auto simp: view_widened_def)

lemma view_widened_bounds: "bounds_ok g \<Longrightarrow> view_widened g g' \<Longrightarrow> bounds_ok g'"
  by (auto simp: view_widened_def bounds_ok_def)

lemma sortDumpList_frame:
  "depth (sortDumpList g) = depth g \<and> view_widened g (sortDumpList g)
   \<and> fout (sortDumpList g) = fout g"
  by (simp add: sortDumpList_def Let_def case_prod_beta view_widened_def)

lemma widen_frame:
  "depth (widen vb g) = depth g \<and> view_widened g (widen vb g) \<and> fout (widen vb g) = fout g"
  by (cases vb) (simp add: widen_def Let_def view_widened_def)

lemma dumpEntry_frame:
  assumes "dumpEntry env e g = Inr (c, g')"
  shows "depth g' = depth g \<and> view_widened g g'"
proof (cases "svg_files env (prefix env @ dec_05u (unat (filenum e)) @ ''.svg'')")
  case None
  with assms show ?thesis by (simp add: dumpEntry_def view_widened_refl)
next
  case (Some cs)
  let ?hb = "take 150 cs @ replicate (150 - length cs) NUL"
  show ?thesis
  proof (cases "sscanf_viewbox env (cstring (drop 14 ?hb))")
    case None
    with assms Some show ?thesis by (simp add: dumpEntry_def Let_def view_widened_refl)
  next
    case (Some vb)
    note w = widen_frame[of vb g]
    from assms \<open>svg_files env _ = Some cs\<close> Some
    have "\<exists>f. g' = widen vb g \<or> g' = (widen vb g)\<lparr>fout := f\<rparr>"
      by (auto simp: dumpEntry_def Let_def split: sum.splits option.splits prod.splits bool.splits)
    then show ?thesis using w by (auto simp: view_widened_def)
  qed
qed

lemma dumpEntries_frame:
  "dumpEntries env es g = Inr (c, g') \<Longrightarrow> depth g' = depth g \<and> view_widened g g'"
proof (induction es arbitrary: g)
  case Nil
  then show ?case by (simp add: view_widened_refl)
next
  case (Cons e es)
  show ?case
  proof (cases "dumpEntry env e g")
    case (Inl err)
    with Cons.prems show ?thesis by simp
  next
    case (Inr p)
    obtain c1 g1 where p: "p = (c1, g1)" by (cases p)
    note f1 = dumpEntry_frame[OF Inr[unfolded p]]
    show ?thesis
    proof (cases c1)
      case Break
      with Cons.prems Inr p f1 show ?thesis by simp
    next
      case Continue
      with Cons.prems Inr p have "dumpEntries env es g1 = Inr (c, g')" by simp
      from Cons.IH[OF this] f1 show ?thesis by (auto intro: view_widened_trans)
    qed
  qed
qed

lemma dumpFromList_frame:
  assumes "dumpFromList env g = Inr (r, g')"
  shows "depth g' = depth g \<and> view_widened g g'"
proof -
  let ?g1 = "sortDumpList g"
  note s = sortDumpList_frame[of g]
  show ?thesis
  proof (cases "dumpEntries env (dl_entries ?g1) ?g1")
    case (Inl err)
    with assms show ?thesis by (simp add: dumpFromList_def Let_def)
  next
    case (Inr p)
    obtain c g2 where p: "p = (c, g2)" by (cases p)
    note f2 = dumpEntries_frame[OF Inr[unfolded p]]
    have g2: "depth g2 = depth g \<and> view_widened g g2"
      using f2 s by (auto intro: view_widened_trans)
    from assms Inr p have "g' = g2 \<or> (\<exists>f. g' = g2\<lparr>fout := f\<rparr>)"
      by (auto simp: dumpFromList_def Let_def split: loop_ctl.splits sum.splits prod.splits if_splits)
    with g2 show ?thesis by (auto simp: view_widened_def)
  qed
qed

lemma after_loop_frame:
  assumes "after_loop env g = Inr (r, g')"
  shows "depth g' = depth g \<and> view_widened g g'"
proof (cases "depth g = 0")
  case False
  with assms show ?thesis by (simp add: after_loop_def view_widened_refl)
next
  case True
  show ?thesis
  proof (cases "dumpFromList env g")
    case (Inl err)
    with assms True show ?thesis by (simp add: after_loop_def)
  next
    case (Inr p)
    obtain r1 g1 where p: "p = (r1, g1)" by (cases p)
    note f = dumpFromList_frame[OF Inr[unfolded p]]
    from assms True Inr p have "g' = g1 \<or> (\<exists>f. g' = g1\<lparr>fout := f\<rparr>)"
      by (auto simp: after_loop_def split: if_splits)
    with f show ?thesis by (auto simp: view_widened_def)
  qed
qed

lemma after_loop_post: "depth g \<le> 10 \<Longrightarrow> pf_post g (after_loop env g)"
  using after_loop_frame[of env g]
  by (cases "after_loop env g") (auto simp: pf_post_def)

lemma addToDumpList_frame:
  "addToDumpList fn ln g = Inr (r, g') \<Longrightarrow> depth g' = depth g \<and> view_widened g g'"
  by (auto simp: addToDumpList_def view_widened_def split: if_splits)

lemma bo_fread2_remaining:
  "bo_fread2 n f = (Some ws, f1) \<Longrightarrow> 0 < n \<Longrightarrow> remaining f1 < remaining f"
  by (auto simp: bo_fread2_def fread_def Let_def remaining_def split: if_splits)

lemma pf_rel_iff:
  "((c', g'), (c, g)) \<in> pf_rel \<longleftrightarrow>
     nat (10 - depth g') < nat (10 - depth g)
     \<or> nat (10 - depth g') = nat (10 - depth g)
        \<and> ((case c' of ProcessFile n \<Rightarrow> 1 | Scan f \<Rightarrow> 0)
             < (case c of ProcessFile n \<Rightarrow> (1 :: nat) | Scan f \<Rightarrow> 0)
            \<or> (case c' of ProcessFile n \<Rightarrow> 1 | Scan f \<Rightarrow> 0)
               = (case c of ProcessFile n \<Rightarrow> (1 :: nat) | Scan f \<Rightarrow> 0)
              \<and> (case c' of ProcessFile n \<Rightarrow> 0 | Scan f \<Rightarrow> remaining f)
                  < (case c of ProcessFile n \<Rightarrow> 0 | Scan f \<Rightarrow> remaining f))"
  by (simp add: pf_rel_def pf_meas_def)

lemma processFile_at_max_depth:
  "depth g = 10 \<Longrightarrow> processFile_scan env (ProcessFile n) g = Some (Inr (0, g))"
  by (subst processFile_scan.simps) simp

lemma processFile_step:
  assumes d: "depth g \<noteq> 10"
  shows "(\<exists>r. processFile_scan env (ProcessFile n) g = Some (Inr (r, g)))
       \<or> (\<exists>r g'. processFile_scan env (ProcessFile n) g = Some (Inr (r, g'))
                  \<and> depth g' = depth g \<and> view_widened g g')
       \<or> (\<exists>err. processFile_scan env (ProcessFile n) g = Some (Inl err))
       \<or> (\<exists>f g1. processFile_scan env (ProcessFile n) g = processFile_scan env (Scan f) g1
                  \<and> depth g1 = depth g \<and> view_widened g g1)"
proof (cases "bin_files env n")
  case None
  with d have "processFile_scan env (ProcessFile n) g = Some (Inr (1, g))"
    by (subst processFile_scan.simps) simp
  then show ?thesis by blast
next
  case (Some bytes)
  obtain rh f where rd: "bo_fread4 3 (fopen_r bytes) = (rh, f)"
    by (cases "bo_fread4 3 (fopen_r bytes)")
  show ?thesis
  proof (cases rh)
    case None
    with d Some rd have "processFile_scan env (ProcessFile n) g = Some (Inr (1, g))"
      by (subst processFile_scan.simps) simp
    then show ?thesis by blast
  next
    case hd: (Some header)
    show ?thesis
    proof (cases "sint (header ! 0) = 1")
      case one: True
      show ?thesis
      proof (cases "sint (header ! 1) \<noteq> 0 \<or> depth g = 0")
        case True
        with d Some rd hd one
        have "\<exists>r. processFile_scan env (ProcessFile n) g = Some (Inr (r, g))"
          by (subst processFile_scan.simps) auto
        then show ?thesis by blast
      next
        case False
        let ?a = "addToDumpList (ucast (drop_bit 16 (header ! 2))) (ucast (header ! 2)) g"
        show ?thesis
        proof (cases ?a)
          case (Inl err)
          with d Some rd hd one False
          have "processFile_scan env (ProcessFile n) g = Some (Inl err)"
            by (subst processFile_scan.simps) simp
          then show ?thesis by blast
        next
          case (Inr p)
          obtain r g' where p: "p = (r, g')" by (cases p)
          from d Some rd hd one False Inr p
          have "processFile_scan env (ProcessFile n) g = Some (Inr (0, g'))"
            by (subst processFile_scan.simps) simp
          with addToDumpList_frame[OF Inr[unfolded p]] show ?thesis by blast
        qed
      qed
    next
      case notone: False
      show ?thesis
      proof (cases "sint (header ! 0) < 3 \<or> sint (header ! 0) \<ge> int MAX_DUMPLIST
                    \<or> (sint (header ! 0) = 3 \<and> depth g = 0) \<or> sint (header ! 1) = 0x48
                    \<or> sint (header ! 1) \<noteq> 0 \<or> sint (header ! 2) \<noteq> 0")
        case True
        with d Some rd hd notone
        have "processFile_scan env (ProcessFile n) g = Some (Inr (1, g))"
          by (subst processFile_scan.simps) auto
        then show ?thesis by blast
      next
        case grp: False
        obtain rh2 f' where rd2: "bo_fread4 3 f = (rh2, f')" by (cases "bo_fread4 3 f")
        show ?thesis
        proof (cases rh2)
          case None
          with d Some rd hd notone grp rd2
          have "processFile_scan env (ProcessFile n) g = Some (Inr (1, g))"
            by (subst processFile_scan.simps) auto
          then show ?thesis by blast
        next
          case h2: (Some header2)
          let ?g1 = "if depth g = 0 then g\<lparr>fout := fwrite svg_header_text (fopen_r [])\<rparr> else g"
          from d Some rd hd notone grp rd2 h2
          have "processFile_scan env (ProcessFile n) g = processFile_scan env (Scan f') ?g1"
            by (subst processFile_scan.simps) auto
          moreover have "depth ?g1 = depth g \<and> view_widened g ?g1"
            by (simp add: view_widened_def)
          ultimately show ?thesis by blast
        qed
      qed
    qed
  qed
qed

lemma scan_step:
  "processFile_scan env (Scan f) g = Some (after_loop env g)
   \<or> (\<exists>f1. remaining f1 < remaining f
        \<and> processFile_scan env (Scan f) g = processFile_scan env (Scan f1) g)
   \<or> (\<exists>f2 name. remaining f2 < remaining f
        \<and> processFile_scan env (Scan f) g
          = Option.bind (processFile_scan env (ProcessFile name) (g\<lparr>depth := depth g + 1\<rparr>))
              (\<lambda>res. case res of
                        Inl err \<Rightarrow> Some (Inl err)
                      | Inr (r, g') \<Rightarrow>
                          if r \<noteq> 0 then Some (after_loop env g')
                          else processFile_scan env (Scan f2) (g'\<lparr>depth := depth g' - 1\<rparr>)))"
proof (cases "eof_flag f")
  case True
  then show ?thesis by (subst processFile_scan.simps) simp
next
  case noeof: False
  obtain r1 f1 where rd1: "bo_fread2 1 f = (r1, f1)" by (cases "bo_fread2 1 f")
  show ?thesis
  proof (cases r1)
    case None
    with noeof rd1 show ?thesis by (subst processFile_scan.simps) simp
  next
    case (Some cmd)
    from bo_fread2_remaining[OF rd1[unfolded Some]] have lt1: "remaining f1 < remaining f" by simp
    show ?thesis
    proof (cases "cmd ! 0 = 3 \<or> cmd ! 0 = 4")
      case False
      with noeof rd1 Some
      have "processFile_scan env (Scan f) g = processFile_scan env (Scan f1) g"
        by (subst processFile_scan.simps) simp
      with lt1 show ?thesis by blast
    next
      case inc: True
      obtain r2 f2 where rd2: "bo_fread2 1 f1 = (r2, f2)" by (cases "bo_fread2 1 f1")
      show ?thesis
      proof (cases r2)
        case None
        with noeof rd1 Some inc rd2 show ?thesis
          by (subst processFile_scan.simps) auto
      next
        case (Some incnum)
        from bo_fread2_remaining[OF rd2[unfolded Some]] lt1 have "remaining f2 < remaining f"
          by simp
        moreover have "processFile_scan env (Scan f) g
          = Option.bind (processFile_scan env
                (ProcessFile (prefix env @ dec_05u (unat (incnum ! 0)) @ ''.bin''))
                (g\<lparr>depth := depth g + 1\<rparr>))
              (\<lambda>res. case res of
                        Inl err \<Rightarrow> Some (Inl err)
                      | Inr (r, g') \<Rightarrow>
                          if r \<noteq> 0 then Some (after_loop env g')
                          else processFile_scan env (Scan f2) (g'\<lparr>depth := depth g' - 1\<rparr>))"
          using noeof rd1 \<open>r1 = Some cmd\<close> inc rd2 Some
          by (subst processFile_scan.simps) auto
        ultimately show ?thesis by blast
      qed
    qed
  qed
qed

lemma pf_induct:
  assumes "\<And>call g. (\<And>call' g'. ((call', g'), (call, g)) \<in> pf_rel \<Longrightarrow> P call' g') \<Longrightarrow> P call g"
  shows "P call g"
proof -
  have "case_prod P (call, g)"
    by (rule wf_induct_rule[OF wf_pf_rel]) (use assms in auto)
  then show ?thesis by simp
qed

lemma processFile_scan_total:
  "pf_pre call g \<Longrightarrow> \<exists>res. processFile_scan env call g = Some res \<and> pf_post g res"
proof (induction call g rule: pf_induct)
  case (1 call g)
  note IH = "1.IH"
  note pre = "1.prems"
  show ?case
  proof (cases call)
    case (ProcessFile n)
    with pre have d10: "depth g \<le> 10" by (simp add: pf_pre_def)
    show ?thesis
    proof (cases "depth g = 10")
      case True
      then have "processFile_scan env call g = Some (Inr (0, g))"
        unfolding ProcessFile by (rule processFile_at_max_depth)
      then show ?thesis using True by (simp add: pf_post_def view_widened_refl)
    next
      case False
      from processFile_step[OF False, of env n]
      consider
        (same) r where "processFile_scan env (ProcessFile n) g = Some (Inr (r, g))"
        | (added) r g' where "processFile_scan env (ProcessFile n) g = Some (Inr (r, g'))"
            "depth g' = depth g" "view_widened g g'"
        | (err) e where "processFile_scan env (ProcessFile n) g = Some (Inl e)"
        | (scan) f g1 where
            "processFile_scan env (ProcessFile n) g = processFile_scan env (Scan f) g1"
            "depth g1 = depth g" "view_widened g g1"
        by blast
      then show ?thesis
      proof cases
        case same
        then show ?thesis using d10 ProcessFile by (simp add: pf_post_def view_widened_refl)
      next
        case added
        then show ?thesis using d10 ProcessFile by (simp add: pf_post_def)
      next
        case err
        then show ?thesis using ProcessFile by (simp add: pf_post_def)
      next
        case scan
        have rel: "((Scan f, g1), (call, g)) \<in> pf_rel"
          using scan(2) ProcessFile by (simp add: pf_rel_iff)
        have "pf_pre (Scan f) g1" using scan(2) d10 False by (simp add: pf_pre_def)
        from IH[OF rel this] obtain res where
          res: "processFile_scan env (Scan f) g1 = Some res" "pf_post g1 res" by blast
        have "pf_post g res"
          using res(2) scan(2,3)
          by (cases res) (auto simp: pf_post_def intro: view_widened_trans)
        with res(1) scan(1) ProcessFile show ?thesis by simp
      qed
    qed
  next
    case (Scan f)
    with pre have d9: "depth g \<le> 9" by (simp add: pf_pre_def)
    from scan_step[of env f g]
    consider
      (finished) "processFile_scan env (Scan f) g = Some (after_loop env g)"
      | (skip) f1 where "remaining f1 < remaining f"
          "processFile_scan env (Scan f) g = processFile_scan env (Scan f1) g"
      | (incl) f2 name where "remaining f2 < remaining f"
          "processFile_scan env (Scan f) g
           = Option.bind (processFile_scan env (ProcessFile name) (g\<lparr>depth := depth g + 1\<rparr>))
               (\<lambda>res. case res of
                         Inl err \<Rightarrow> Some (Inl err)
                       | Inr (r, g') \<Rightarrow>
                           if r \<noteq> 0 then Some (after_loop env g')
                           else processFile_scan env (Scan f2) (g'\<lparr>depth := depth g' - 1\<rparr>))"
      by blast
    then show ?thesis
    proof cases
      case finished
      with after_loop_post[of g env] d9 Scan show ?thesis by simp
    next
      case skip
      have rel: "((Scan f1, g), (call, g)) \<in> pf_rel"
        using skip(1) Scan by (simp add: pf_rel_iff)
      have "pf_pre (Scan f1) g" using d9 by (simp add: pf_pre_def)
      from IH[OF rel this] skip(2) Scan show ?thesis by simp
    next
      case incl
      let ?g1 = "g\<lparr>depth := depth g + 1\<rparr>"
      have rel1: "((ProcessFile name, ?g1), (call, g)) \<in> pf_rel"
        using d9 Scan by (simp add: pf_rel_iff)
      have "pf_pre (ProcessFile name) ?g1" using d9 by (simp add: pf_pre_def)
      from IH[OF rel1 this] obtain res1 where
        res1: "processFile_scan env (ProcessFile name) ?g1 = Some res1" "pf_post ?g1 res1"
        by blast
      show ?thesis
      proof (cases res1)
        case (Inl e)
        with incl(2) res1(1) Scan show ?thesis by (simp add: pf_post_def)
      next
        case (Inr p)
        obtain r g' where p: "p = (r, g')" by (cases p)
        from res1(2) Inr p have g': "depth g + 1 \<le> depth g'" "depth g' \<le> 10" "view_widened g g'"
          by (simp_all add: pf_post_def view_widened_def)
        show ?thesis
        proof (cases "r \<noteq> 0")
          case True
          with incl(2) res1(1) Inr p Scan
          have eq: "processFile_scan env call g = Some (after_loop env g')" by simp
          have "pf_post g (after_loop env g')"
            using after_loop_frame[of env g'] g'
            by (cases "after_loop env g'") (auto simp: pf_post_def intro: view_widened_trans)
          with eq show ?thesis by simp
        next
          case False
          let ?g3 = "g'\<lparr>depth := depth g' - 1\<rparr>"
          from False incl(2) res1(1) Inr p Scan
          have eq: "processFile_scan env call g = processFile_scan env (Scan f2) ?g3" by simp
          have rel3: "((Scan f2, ?g3), (call, g)) \<in> pf_rel"
            using g'(1,2) incl(1) Scan by (auto simp: pf_rel_iff)
          have "pf_pre (Scan f2) ?g3" using g'(2) by (simp add: pf_pre_def)
          from IH[OF rel3 this] obtain res3 where
            res3: "processFile_scan env (Scan f2) ?g3 = Some res3" "pf_post ?g3 res3" by blast
          have "view_widened g ?g3" using g'(3) by (simp add: view_widened_def)
          then have "pf_post g res3"
            using res3(2) g'(1)
            by (cases res3) (auto simp: pf_post_def intro: view_widened_trans)
          with eq res3(1) show ?thesis by simp
        qed
      qed
    qed
  qed
qed



text \<open>
  A run on a cyclic include graph: the command file \<open>00001.bin\<close> is a group file whose
  only command includes \<open>00001.bin\<close>. Every call from depth 1 on returns 0 with the state
  it was given, the call at depth 10 without opening the file; the call from \<^verbatim>\<open>main\<close>
  returns 0 with an empty composite document whose viewport is patched to \<open>0 0 1 1\<close>.
\<close>

lemma dec_05u_1: "dec_05u (Suc 0) = ''00001''"
  by (simp add: dec_05u_def dec_nat.simps numeral_eq_Suc)

lemma cyclic_open:
  "depth g \<noteq> 10 \<Longrightarrow>
   processFile_scan env_example (ProcessFile ''00001.bin'') g
   = processFile_scan env_example (Scan ((fopen_r cyclic_file)\<lparr>position := 24\<rparr>))
       (if depth g = 0 then g\<lparr>fout := fwrite svg_header_text (fopen_r [])\<rparr> else g)"
  by (subst processFile_scan.simps)
     (simp add: env_example_def cyclic_bin_def cyclic_file_def bo_fread4_def fread_def
       fopen_r_def be32_def MAX_DUMPLIST_def Let_def)

lemma cyclic_include:
  "processFile_scan env_example (Scan ((fopen_r cyclic_file)\<lparr>position := 24\<rparr>)) g
   = Option.bind (processFile_scan env_example (ProcessFile ''00001.bin'')
                    (g\<lparr>depth := depth g + 1\<rparr>))
       (\<lambda>res. case res of
                 Inl err \<Rightarrow> Some (Inl err)
               | Inr (r, g') \<Rightarrow>
                   if r \<noteq> 0 then Some (after_loop env_example g')
                   else processFile_scan env_example
                          (Scan ((fopen_r cyclic_file)\<lparr>position := 28\<rparr>))
                          (g'\<lparr>depth := depth g' - 1\<rparr>))"
  by (subst processFile_scan.simps)
     (simp add: env_example_def cyclic_file_def bo_fread2_def fread_def fopen_r_def be16_def
       Let_def dec_05u_1 cong del: if_weak_cong)

lemma cyclic_end:
  "processFile_scan env_example (Scan ((fopen_r cyclic_file)\<lparr>position := 28\<rparr>)) g
   = Some (after_loop env_example g)"
  by (subst processFile_scan.simps)
     (simp add: cyclic_file_def bo_fread2_def fread_def fopen_r_def Let_def)

lemma cyclic_nested:
  "1 \<le> depth g \<Longrightarrow> depth g \<le> 10 \<Longrightarrow>
   processFile_scan env_example (ProcessFile ''00001.bin'') g = Some (Inr (0, g))"
proof (induction "nat (10 - depth g)" arbitrary: g)
  case 0
  then have "depth g = 10" by simp
  then show ?case by (rule processFile_at_max_depth)
next
  case (Suc k)
  then have d: "depth g \<noteq> 10" "depth g \<noteq> 0" by simp_all
  let ?g1 = "g\<lparr>depth := depth g + 1\<rparr>"
  have "k = nat (10 - depth ?g1)" using Suc.hyps(2) by simp
  moreover have "1 \<le> depth ?g1" "depth ?g1 \<le> 10" using Suc.prems Suc.hyps(2) by simp_all
  ultimately have inner_call:
    "processFile_scan env_example (ProcessFile ''00001.bin'') ?g1 = Some (Inr (0, ?g1))"
    by (rule Suc.hyps(1))
  have restore: "?g1\<lparr>depth := depth ?g1 - 1\<rparr> = g" by simp
  have "processFile_scan env_example (ProcessFile ''00001.bin'') g
        = Some (after_loop env_example g)"
    using d by (simp add: cyclic_open cyclic_include inner_call restore cyclic_end)
  then show ?case using d by (simp add: after_loop_def)
qed

lemma cyclic_run:
  "\<exists>g'. processFile env_example ''00001.bin'' init_globals = Some (Inr (0, g'))
      \<and> depth g' = 0 \<and> dumpListPos g' = 0
      \<and> contents (fout g')
          = ''<svg viewBox='' @ [dq] @ ''0 0 1 1'' @ [dq] @ ''                 ''
            @ '' version='' @ [dq] @ ''1.1'' @ [dq] @ '' baseProfile='' @ [dq] @ ''full'' @ [dq]
            @ '' xmlns='' @ [dq] @ ''http://www.w3.org/2000/svg'' @ [dq] @ ''>'' @ [nl]
            @ ''</svg>'' @ [nl]"
proof -
  let ?g1 = "init_globals\<lparr>fout := fwrite svg_header_text (fopen_r [])\<rparr>"
  let ?g2 = "?g1\<lparr>depth := depth ?g1 + 1\<rparr>"
  have d0: "depth init_globals = 0" by (simp add: init_globals_def)
  have eq1: "processFile_scan env_example (ProcessFile ''00001.bin'') init_globals
             = processFile_scan env_example (Scan ((fopen_r cyclic_file)\<lparr>position := 24\<rparr>)) ?g1"
    using cyclic_open[of init_globals] d0 by simp
  have inner_call:
    "processFile_scan env_example (ProcessFile ''00001.bin'') ?g2 = Some (Inr (0, ?g2))"
    by (rule cyclic_nested) (simp_all add: d0)
  have restore: "?g2\<lparr>depth := depth ?g2 - 1\<rparr> = ?g1" by simp
  have "processFile_scan env_example (Scan ((fopen_r cyclic_file)\<lparr>position := 24\<rparr>)) ?g1
        = Some (after_loop env_example ?g1)"
    by (subst cyclic_include) (simp only: inner_call Option.bind.simps sum.case prod.case
        restore cyclic_end if_False simp_thms)
  with eq1 have "processFile env_example ''00001.bin'' init_globals
                 = Some (after_loop env_example ?g1)"
    by (simp add: processFile_def)
  then show ?thesis
    by (simp add: after_loop_def dumpFromList_def sortDumpList_def init_globals_def
        dl_entries_def setViewbox_def viewbox_text_def rpad26_def dec_int_def dec_nat.simps
        fwrite_def fopen_r_def fseek_set_def svg_header_text_def Let_def dq_def nl_def)
qed

lemma dumpFromList_patch:
  assumes "dumpFromList env g = Inr (0, g')"
  shows "\<exists>f. setViewbox f (viewMinX g') (viewMinY g') (viewMaxX g') (viewMaxY g') = Inr (0, fout g')"
proof -
  let ?g1 = "sortDumpList g"
  from assms obtain g2 where
    e: "dumpEntries env (dl_entries ?g1) ?g1 = Inr (Continue, g2)"
    by (auto simp: dumpFromList_def Let_def split: sum.splits loop_ctl.splits prod.splits)
  from assms e obtain f where
    "setViewbox (fout g2) (viewMinX g2) (viewMinY g2) (viewMaxX g2) (viewMaxY g2) = Inr (0, f)"
    "g' = g2\<lparr>fout := f\<rparr>"
    by (auto simp: dumpFromList_def Let_def split: sum.splits prod.splits if_splits)
  then show ?thesis by auto
qed

text \<open>
  C10. The bounds start as (0, 0, 1, 1). Whatever \<^verbatim>\<open>processFile\<close> returns from the
  initial state, the bounds it leaves satisfy \<open>minX \<le> 0\<close>, \<open>minY \<le> 0\<close>, \<open>maxX \<ge> 1\<close> and
  \<open>maxY \<ge> 1\<close>. Where \<^verbatim>\<open>dumpFromList\<close> succeeds from bounds with this property, the
  output it leaves is the patch by \<^verbatim>\<open>setViewbox\<close> with the final bounds, which are the
  old ones widened and still have the property.
\<close>

theorem composite_bounds_contain_unit_square:
  "viewMinX init_globals = 0 \<and> viewMinY init_globals = 0
   \<and> viewMaxX init_globals = 1 \<and> viewMaxY init_globals = 1
   \<and> (\<exists>res. processFile env name init_globals = Some res
         \<and> (\<forall>r g'. res = Inr (r, g') \<longrightarrow>
               viewMinX g' \<le> 0 \<and> viewMinY g' \<le> 0 \<and> 1 \<le> viewMaxX g' \<and> 1 \<le> viewMaxY g'))
   \<and> (viewMinX g \<le> 0 \<and> viewMinY g \<le> 0 \<and> 1 \<le> viewMaxX g \<and> 1 \<le> viewMaxY g
        \<and> dumpFromList env g = Inr (0, g')
      \<longrightarrow> (\<exists>f. setViewbox f (viewMinX g') (viewMinY g') (viewMaxX g') (viewMaxY g')
                  = Inr (0, fout g'))
          \<and> viewMinX g' \<le> viewMinX g \<and> viewMinY g' \<le> viewMinY g
          \<and> viewMaxX g \<le> viewMaxX g' \<and> viewMaxY g \<le> viewMaxY g'
          \<and> viewMinX g' \<le> 0 \<and> viewMinY g' \<le> 0 \<and> 1 \<le> viewMaxX g' \<and> 1 \<le> viewMaxY g')"
proof (intro conjI impI)
  have "pf_pre (ProcessFile name) init_globals" by (simp add: pf_pre_def init_globals_def)
  from processFile_scan_total[OF this, of env] obtain res where
    res: "processFile env name init_globals = Some res" "pf_post init_globals res"
    by (auto simp: processFile_def)
  have "bounds_ok init_globals" by (simp add: bounds_ok_def init_globals_def)
  with res(2) have "\<forall>r g'. res = Inr (r, g') \<longrightarrow> bounds_ok g'"
    by (auto simp: pf_post_def intro: view_widened_bounds)
  with res(1) show "\<exists>res. processFile env name init_globals = Some res
         \<and> (\<forall>r g'. res = Inr (r, g') \<longrightarrow>
               viewMinX g' \<le> 0 \<and> viewMinY g' \<le> 0 \<and> 1 \<le> viewMaxX g' \<and> 1 \<le> viewMaxY g')"
    by (simp add: bounds_ok_def)
next
  assume h: "viewMinX g \<le> 0 \<and> viewMinY g \<le> 0 \<and> 1 \<le> viewMaxX g \<and> 1 \<le> viewMaxY g
        \<and> dumpFromList env g = Inr (0, g')"
  then have d: "dumpFromList env g = Inr (0, g')" by simp
  from dumpFromList_frame[OF d] have w: "view_widened g g'" by simp
  from dumpFromList_patch[OF d]
  show "\<exists>f. setViewbox f (viewMinX g') (viewMinY g') (viewMaxX g') (viewMaxY g') = Inr (0, fout g')" .
  from w show "viewMinX g' \<le> viewMinX g" "viewMinY g' \<le> viewMinY g"
    "viewMaxX g \<le> viewMaxX g'" "viewMaxY g \<le> viewMaxY g'"
    by (simp_all add: view_widened_def)
  from w h show "viewMinX g' \<le> 0" "viewMinY g' \<le> 0" "1 \<le> viewMaxX g'" "1 \<le> viewMaxY g'"
    by (auto simp: view_widened_def)
qed (simp_all add: init_globals_def)

lemma dec_05u_7: "dec_05u 7 = ''00007''"
  by (simp add: dec_05u_def dec_nat.simps numeral_eq_Suc)

lemma dumpFromList_example:
  "\<exists>g'. dumpFromList env_example g_example = Inr (0, g')
      \<and> viewMinX g' = 0 \<and> viewMinY g' = 0 \<and> viewMaxX g' = 3 \<and> viewMaxY g' = 3"
  by (simp add: dumpFromList_def sortDumpList_def g_example_def init_globals_def dl_entries_def
      dumpEntry_def env_example_def svg_example_def dec_05u_7 dec_nat.simps frag_example_def
      dq_def nl_def NUL_def cstring_def sscanf_example_def widen_def copyBlocks.simps
      BLOCKSIZE_def fread_def fwrite_def fopen_r_def fseek_set_def setViewbox_def
      viewbox_text_def rpad26_def dec_int_def svg_header_text_def Let_def MAX_DUMPLIST_def)

theorem composite_bounds_contain_unit_square_witness:
  "\<exists>g'. dumpFromList env_example g_example = Inr (0, g')
      \<and> (\<exists>f. setViewbox f (viewMinX g') (viewMinY g') (viewMaxX g') (viewMaxY g')
                = Inr (0, fout g'))
      \<and> viewMinX g' \<le> 0 \<and> viewMinY g' \<le> 0 \<and> 1 \<le> viewMaxX g' \<and> 1 \<le> viewMaxY g'
      \<and> viewMaxX g' = 3 \<and> viewMaxY g' = 3"
proof -
  from dumpFromList_example obtain g' where
    g': "dumpFromList env_example g_example = Inr (0, g')" "viewMaxX g' = 3" "viewMaxY g' = 3"
    by blast
  have b: "viewMinX g_example \<le> 0 \<and> viewMinY g_example \<le> 0
           \<and> 1 \<le> viewMaxX g_example \<and> 1 \<le> viewMaxY g_example"
    by (simp add: g_example_def init_globals_def)
  from composite_bounds_contain_unit_square[of env_example "''00001.bin''" g_example g'] b g'
  show ?thesis by blast
qed

end
